theory Spec2Isabelle
  imports Complex_Main "HOL-Library.Multiset"
begin

section \<open>Errors\<close>

text \<open>
  The exceptions that the two helper functions of \<^verbatim>\<open>Helpers.py\<close> can let escape.
  A computation that may raise returns \<open>error + 'a\<close>, with \<open>Inl\<close> for the exception.
\<close>

datatype error =
  KeyError | AttributeError | TypeError | IndexError | ZeroDivisionError | ValueError | MergeError

section \<open>The sparse column profiler: \<^verbatim>\<open>sparse_column_value_counts\<close>\<close>

subsection \<open>Data\<close>

text \<open>
  A matrix in compressed-sparse-column form, as \<^verbatim>\<open>scipy.sparse.csc_matrix\<close> stores it:
  the shape, the column pointers \<^verbatim>\<open>indptr\<close>, and for every stored entry its row index
  (\<^verbatim>\<open>indices\<close>) and its value (\<^verbatim>\<open>data\<close>). The entries of column \<open>j\<close> are those at the
  positions \<open>indptr[j] ..< indptr[j+1]\<close>. The index arrays hold natural numbers; the
  stored values are integers (copy counts in the application). The conversion
  \<^verbatim>\<open>tocsc()\<close> of the first lines of the function belongs to scipy: the model starts
  from the matrix in CSC form.
\<close>

record csc_matrix =
  n_rows :: nat
  n_cols :: nat
  indptr :: "nat list"
  indices :: "nat list"
  data :: "int list"

text \<open>
  The values a \<^verbatim>\<open>Counter\<close> of the function holds before normalisation. The counts that
  \<^verbatim>\<open>Counter(data)\<close> builds are Python integers; the zero bucket that line 96 assigns is
  \<^verbatim>\<open>n_rows - (end - start)\<close>, a numpy integer, since \<^verbatim>\<open>start\<close> and \<^verbatim>\<open>end\<close> are read from
  a numpy array. The two differ in what a division by zero does.
\<close>

datatype count = PyInt int | NpInt int

text \<open>
  The result of the true division \<^verbatim>\<open>v / total\<close>: a float, or one of the non-finite
  values that numpy returns, with a warning, for a division by zero. The float is the
  double nearest to the quotient; \<open>Float q\<close> records the quotient \<open>q\<close> that was rounded,
  not the double, and nothing below is stated about the sum of such floats.
\<close>

datatype freq = Float rat | NpInf | NpNegInf | NpNaN

datatype bucket = Count count | Freq freq

text \<open>
  A Python \<^verbatim>\<open>dict\<close> keeps its keys in insertion order: an association list with one
  pair per key. One of them is the profile of a column.
\<close>

type_synonym 'v pydict = "(int \<times> 'v) list"

type_synonym column_profile = "bucket pydict"

subsection \<open>Dictionaries and \<^verbatim>\<open>Counter\<close>\<close>

text \<open>\<^verbatim>\<open>d.get(k, dflt)\<close>.\<close>

definition dict_get :: "'v pydict \<Rightarrow> int \<Rightarrow> 'v \<Rightarrow> 'v" where
  "dict_get d k dflt = (case map_of d k of None \<Rightarrow> dflt | Some v \<Rightarrow> v)"

text \<open>\<^verbatim>\<open>d[k] = v\<close>: the value of an existing key is replaced where it stands, a new key
  goes to the end.\<close>

fun dict_set :: "int \<Rightarrow> 'v \<Rightarrow> 'v pydict \<Rightarrow> 'v pydict" where
  "dict_set k v [] = [(k, v)]"
| "dict_set k v ((k', v') # d) =
     (if k' = k then (k, v) # d else (k', v') # dict_set k v d)"

text \<open>\<^verbatim>\<open>Counter(data)\<close>: for every element in turn, \<^verbatim>\<open>c[elem] = c.get(elem, 0) + 1\<close>.\<close>

definition Counter :: "int list \<Rightarrow> int pydict" where
  "Counter xs = fold (\<lambda>x c. dict_set x (dict_get c x 0 + 1) c) xs []"

subsection \<open>The function\<close>

text \<open>\<^verbatim>\<open>data[start:end]\<close> for non-negative bounds: empty when the end is not above the start, cut at
  the end of the array.\<close>

definition slice :: "'a list \<Rightarrow> nat \<Rightarrow> nat \<Rightarrow> 'a list" where
  "slice xs start stop = take (stop - start) (drop start xs)"

text \<open>
  \<^verbatim>\<open>v / total\<close> with \<^verbatim>\<open>total = n_rows\<close>, a Python integer (here \<open>n\<close>). A Python integer divided by
  zero raises \<^verbatim>\<open>ZeroDivisionError\<close>; a numpy integer divided by zero gives
  \<^verbatim>\<open>inf\<close>, \<^verbatim>\<open>-inf\<close> or \<^verbatim>\<open>nan\<close>.
\<close>

fun true_divide :: "count \<Rightarrow> nat \<Rightarrow> error + freq" where
  "true_divide (PyInt v) n =
     (if n = 0 then Inl ZeroDivisionError else Inr (Float (of_int v / of_nat n)))"
| "true_divide (NpInt v) n =
     (if n = 0 then Inr (if 0 < v then NpInf else if v < 0 then NpNegInf else NpNaN)
      else Inr (Float (of_int v / of_nat n)))"

text \<open>The dict comprehension \<^verbatim>\<open>{k: v / total for k, v in counter.items()}\<close>: the items
  in order, stopping at the first division that raises.\<close>

fun normalize_items :: "nat \<Rightarrow> count pydict \<Rightarrow> error + column_profile" where
  "normalize_items n [] = Inr []"
| "normalize_items n ((k, v) # kvs) =
     (case true_divide v n of
        Inl e \<Rightarrow> Inl e
      | Inr q \<Rightarrow>
          (case normalize_items n kvs of
             Inl e \<Rightarrow> Inl e
           | Inr r \<Rightarrow> Inr ((k, Freq q) # r)))"

text \<open>
  The body of the loop over the columns, in two parts. First the counter of the column
  \<open>col_idx\<close> as it stands after line 96 (\<open>stop\<close> is the source's \<^verbatim>\<open>end\<close>,
  \<open>col_values\<close> its \<^verbatim>\<open>data\<close>). Line 96 \<^emph>\<open>assigns\<close> the zero bucket:
  \<^verbatim>\<open>counter[0] = zeros_count\<close>.
\<close>

definition column_counter :: "csc_matrix \<Rightarrow> nat \<Rightarrow> count pydict" where
  "column_counter M col_idx =
     (let start = indptr M ! col_idx;
          stop = indptr M ! (col_idx + 1);
          col_values = slice (data M) start stop;
          counter = map (\<lambda>(k, v). (k, PyInt v)) (Counter col_values);
          explicit_entries = int stop - int start;
          zeros_count = int (n_rows M) - explicit_entries
      in if 0 < zeros_count then dict_set 0 (NpInt zeros_count) counter else counter)"

text \<open>
  Then the whole body (lines 84 to 103): reading \<^verbatim>\<open>indptr[col_idx + 1]\<close> beyond the
  array raises \<^verbatim>\<open>IndexError\<close>; the counter is normalised if requested.
\<close>

definition column_value_counts :: "csc_matrix \<Rightarrow> bool \<Rightarrow> nat \<Rightarrow> error + column_profile" where
  "column_value_counts M normalise col_idx =
     (if length (indptr M) \<le> col_idx + 1 then Inl IndexError
      else
        let counter = column_counter M col_idx
        in if normalise then normalize_items (n_rows M) counter
           else Inr (map (\<lambda>(k, v). (k, Count v)) counter))"

text \<open>The loop \<^verbatim>\<open>for col_idx in range(n_cols)\<close>, appending each profile to the result.\<close>

fun columns_loop :: "csc_matrix \<Rightarrow> bool \<Rightarrow> nat list \<Rightarrow> error + column_profile list" where
  "columns_loop M normalise [] = Inr []"
| "columns_loop M normalise (col_idx # rest) =
     (case column_value_counts M normalise col_idx of
        Inl e \<Rightarrow> Inl e
      | Inr p \<Rightarrow>
          (case columns_loop M normalise rest of
             Inl e \<Rightarrow> Inl e
           | Inr ps \<Rightarrow> Inr (p # ps)))"

definition sparse_column_value_counts :: "csc_matrix \<Rightarrow> bool \<Rightarrow> error + column_profile list" where
  "sparse_column_value_counts M normalise = columns_loop M normalise [0..<n_cols M]"

subsection \<open>Reading a profile\<close>

text \<open>The number a bucket holds, when it is finite.\<close>

fun bucket_value :: "bucket \<Rightarrow> rat option" where
  "bucket_value (Count (PyInt v)) = Some (of_int v)"
| "bucket_value (Count (NpInt v)) = Some (of_int v)"
| "bucket_value (Freq (Float q)) = Some q"
| "bucket_value (Freq _) = None"

text \<open>The integer a counter value holds.\<close>

fun count_int :: "count \<Rightarrow> int" where
  "count_int (PyInt v) = v"
| "count_int (NpInt v) = v"

text \<open>\<^verbatim>\<open>sum(profile.values())\<close>, when every bucket is finite.\<close>

fun sum_values :: "column_profile \<Rightarrow> rat option" where
  "sum_values [] = Some 0"
| "sum_values ((k, b) # p) =
     (case bucket_value b of
        None \<Rightarrow> None
      | Some x \<Rightarrow> (case sum_values p of None \<Rightarrow> None | Some s \<Rightarrow> Some (x + s)))"

text \<open>\<^verbatim>\<open>profile.get(k)\<close>.\<close>

definition bucket_of :: "column_profile \<Rightarrow> int \<Rightarrow> bucket option" where
  "bucket_of p k = map_of p k"

text \<open>The stored values of column \<open>j\<close>.\<close>

definition col_data :: "csc_matrix \<Rightarrow> nat \<Rightarrow> int list" where
  "col_data M j = slice (data M) (indptr M ! j) (indptr M ! (j + 1))"

definition col_indices :: "csc_matrix \<Rightarrow> nat \<Rightarrow> nat list" where
  "col_indices M j = slice (indices M) (indptr M ! j) (indptr M ! (j + 1))"

text \<open>
  The matrices scipy builds: one pointer more than columns, starting at 0, ascending and
  ending at the number of stored entries; one row index per stored value; within a
  column, distinct row indices below the row count.
\<close>

definition wf_csc :: "csc_matrix \<Rightarrow> bool" where
  "wf_csc M \<longleftrightarrow>
     length (indptr M) = n_cols M + 1 \<and>
     indptr M ! 0 = 0 \<and>
     sorted (indptr M) \<and>
     last (indptr M) = length (data M) \<and>
     length (indices M) = length (data M) \<and>
     (\<forall>j \<in> set [0..<n_cols M].
        distinct (col_indices M j) \<and> (\<forall>i \<in> set (col_indices M j). i < n_rows M))"

section \<open>The fuzzy join: \<^verbatim>\<open>fuzzy_join\<close>\<close>

subsection \<open>Tables\<close>

text \<open>
  A cell of an input table: a string or an integer. A pandas \<^verbatim>\<open>DataFrame\<close> is its list
  of column labels and its rows, each row holding one cell per label, in the order of
  the labels. The index of a frame plays no part in the function (the results are
  built with \<^verbatim>\<open>ignore_index=True\<close>) and is left out. The frame the function returns
  can hold missing cells (the \<^verbatim>\<open>NaN\<close> that \<^verbatim>\<open>pd.concat\<close> fills in): its cells are
  optional, \<open>None\<close> standing for \<^verbatim>\<open>NaN\<close>. Input tables hold no missing cell.

  \<open>Num n\<close> is a number of value \<open>n\<close>, whatever pandas holds it in: a column of
  integers is an \<^verbatim>\<open>int64\<close> column in an input table, and comes back as a \<^verbatim>\<open>float64\<close>
  column when \<^verbatim>\<open>pd.concat\<close> fills \<^verbatim>\<open>NaN\<close> into it (the rank 5 comes back as 5.0).
  A double holds every integer up to \<open>2 ^ 53\<close> in magnitude, so the value of such a
  cell is not changed by the conversion; a larger integer is rounded by it. What is
  stated below about the cells of a returned frame is stated for tables whose numbers
  are up to \<open>2 ^ 52\<close> in magnitude (\<open>cells_exact\<close>).
\<close>

datatype cell = Str string | Num int

fun is_str :: "cell option \<Rightarrow> bool" where
  "is_str (Some (Str s)) = True"
| "is_str c = False"

fun is_num :: "cell option \<Rightarrow> bool" where
  "is_num (Some (Num a)) = True"
| "is_num c = False"

record 'a frame =
  columns :: "string list"
  rows :: "'a list list"

text \<open>The cell of a row under a label, if the row has one: \<^verbatim>\<open>row[label]\<close>.\<close>

definition cell_at :: "string list \<Rightarrow> 'a list \<Rightarrow> string \<Rightarrow> 'a option" where
  "cell_at cols row label = map_of (zip cols row) label"

text \<open>\<^verbatim>\<open>df['Player']\<close> and \<^verbatim>\<open>df['Rank']\<close>, row by row.\<close>

definition player :: "cell frame \<Rightarrow> cell list \<Rightarrow> cell option" where
  "player df row = cell_at (columns df) row ''Player''"

definition rank :: "cell frame \<Rightarrow> cell list \<Rightarrow> cell option" where
  "rank df row = cell_at (columns df) row ''Rank''"

definition player_column :: "cell frame \<Rightarrow> cell option list" where
  "player_column df = map (player df) (rows df)"

subsection \<open>Step 1: the standard join\<close>

text \<open>
  \<^verbatim>\<open>pd.merge(df1, df2, on='Player', how='inner', suffixes=('', '_standings'))\<close>.
  The result has the columns of \<open>df1\<close>, then those of \<open>df2\<close> without the key, a label
  of \<open>df2\<close> that \<open>df1\<close> also has getting the suffix \<^verbatim>\<open>_standings\<close>; and one row for
  every pair of a row of \<open>df1\<close> and a row of \<open>df2\<close> with the same key, in the order of
  \<open>df1\<close>, then of \<open>df2\<close>. Three things make it raise, checked in this order:

    \<^item> a frame without the column \<^verbatim>\<open>Player\<close>: \<^verbatim>\<open>KeyError\<close>;

    \<^item> key columns of different kinds, one holding strings only (dtype \<^verbatim>\<open>object\<close>) and
      the other integers only (dtype \<^verbatim>\<open>int64\<close>), in frames that both have rows:
      \<^verbatim>\<open>ValueError\<close>;

    \<^item> a suffixed label that the result already has, as with the labels
      \<^verbatim>\<open>Player, W, W_standings\<close> against \<^verbatim>\<open>Player, W\<close>: \<^verbatim>\<open>MergeError\<close>. The labels of
      each input frame are taken to be distinct, so this is when the labels of the
      result are not.
\<close>

definition drop_key :: "string list \<Rightarrow> 'a list \<Rightarrow> 'a list" where
  "drop_key cols row = map snd (filter (\<lambda>(label, v). label \<noteq> ''Player'') (zip cols row))"

definition merged_columns :: "string list \<Rightarrow> string list \<Rightarrow> string list" where
  "merged_columns cols1 cols2 =
     cols1 @ map (\<lambda>label. if label \<in> set cols1 then label @ ''_standings'' else label)
               (filter (\<lambda>label. label \<noteq> ''Player'') cols2)"

definition key_kinds_differ :: "cell option list \<Rightarrow> cell option list \<Rightarrow> bool" where
  "key_kinds_differ keys1 keys2 \<longleftrightarrow>
     keys1 \<noteq> [] \<and> keys2 \<noteq> [] \<and>
     (list_all is_str keys1 \<and> list_all is_num keys2 \<or>
      list_all is_num keys1 \<and> list_all is_str keys2)"

definition pd_merge :: "cell frame \<Rightarrow> cell frame \<Rightarrow> error + cell frame" where
  "pd_merge df1 df2 =
     (if ''Player'' \<notin> set (columns df1) \<or> ''Player'' \<notin> set (columns df2) then Inl KeyError
      else if key_kinds_differ (player_column df1) (player_column df2) then Inl ValueError
      else if \<not> distinct (merged_columns (columns df1) (columns df2)) then Inl MergeError
      else Inr \<lparr>columns = merged_columns (columns df1) (columns df2),
                rows = concat (map (\<lambda>row1.
                         map (\<lambda>row2. row1 @ drop_key (columns df2) row2)
                           (filter (\<lambda>row2. player df2 row2 = player df1 row1) (rows df2)))
                         (rows df1))\<rparr>)"

subsection \<open>Step 2: the duplicate names\<close>

text \<open>
  \<^verbatim>\<open>s.value_counts()[s.value_counts() > 1].index.tolist()\<close>: the values that occur more
  than once. pandas lists them by falling count; the order is of no consequence, since
  the function puts them into a \<^verbatim>\<open>set\<close>.
\<close>

definition duplicated :: "'a list \<Rightarrow> 'a list" where
  "duplicated xs = filter (\<lambda>x. 1 < count_list xs x) (remdups xs)"

text \<open>
  \<^verbatim>\<open>list(set(xs))\<close> lists each element of \<open>xs\<close> once, in an order that Python does not
  fix (for strings it changes from run to run with the hash seed). The order is a
  parameter \<open>set_order\<close> of the model; it is a possible order for \<open>xs\<close> when:
\<close>

definition valid_set_order :: "('a list \<Rightarrow> 'a list) \<Rightarrow> 'a list \<Rightarrow> bool" where
  "valid_set_order set_order xs \<longleftrightarrow> distinct (set_order xs) \<and> set (set_order xs) = set xs"

definition duplicate_names ::
    "(cell option list \<Rightarrow> cell option list) \<Rightarrow> cell frame \<Rightarrow> cell frame \<Rightarrow> cell option list" where
  "duplicate_names set_order df1 df2 =
     (let duplicate_names_df1 = duplicated (player_column df1);
          duplicate_names_df2 = duplicated (player_column df2)
      in set_order (duplicate_names_df1 @ duplicate_names_df2))"

subsection \<open>Step 3: the clean join\<close>

text \<open>\<^verbatim>\<open>standard_join[~standard_join['Player'].isin(duplicate_names)]\<close>.\<close>

definition clean_join :: "cell option list \<Rightarrow> cell frame \<Rightarrow> cell frame" where
  "clean_join names standard_join =
     standard_join\<lparr>rows := filter (\<lambda>row. player standard_join row \<notin> set names)
                               (rows standard_join)\<rparr>"

subsection \<open>Step 4: the duplicates\<close>

text \<open>\<^verbatim>\<open>df[df['Player'] == dup_name]\<close>.\<close>

definition rows_named :: "cell frame \<Rightarrow> cell option \<Rightarrow> cell list list" where
  "rows_named df dup_name = filter (\<lambda>row. player df row = dup_name) (rows df)"

text \<open>
  \<^verbatim>\<open>abs(row1.Rank - row2.Rank)\<close>. The attribute \<^verbatim>\<open>Rank\<close> of a row without that column
  raises \<^verbatim>\<open>AttributeError\<close>, for \<open>row1\<close> first; the difference of two cells that are
  not both numbers raises \<^verbatim>\<open>TypeError\<close>.
\<close>

fun rank_distance :: "cell option \<Rightarrow> cell option \<Rightarrow> error + int" where
  "rank_distance None r2 = Inl AttributeError"
| "rank_distance (Some c1) None = Inl AttributeError"
| "rank_distance (Some (Num a)) (Some (Num b)) = Inr \<bar>a - b\<bar>"
| "rank_distance (Some c1) (Some c2) = Inl TypeError"

text \<open>
  An entry of the array \<^verbatim>\<open>distances\<close>: a rank distance or \<^verbatim>\<open>np.inf\<close>. The array is
  one of doubles (\<^verbatim>\<open>np.zeros\<close>, line 157), which hold a distance up to \<open>2 ^ 53\<close> as it
  is and round a larger one; \<open>Fin d\<close> is the entry for a distance \<open>d\<close> within that
  bound. What is stated below about the pairs that are matched is stated for tables
  whose numbers are up to \<open>2 ^ 52\<close> in magnitude (\<open>cells_exact\<close>), so that the distance
  of any two ranks is within the bound.
\<close>

datatype dist = Fin int | Inf

fun dist_less :: "dist \<Rightarrow> dist \<Rightarrow> bool" where
  "dist_less (Fin a) (Fin b) = (a < b)"
| "dist_less (Fin a) Inf = True"
| "dist_less Inf d = False"

text \<open>The two nested loops of lines 159 to 161: row by row, stopping at the first
  distance that raises.\<close>

fun distance_row :: "cell option \<Rightarrow> cell option list \<Rightarrow> error + dist list" where
  "distance_row r1 [] = Inr []"
| "distance_row r1 (r2 # ranks2) =
     (case rank_distance r1 r2 of
        Inl e \<Rightarrow> Inl e
      | Inr d \<Rightarrow>
          (case distance_row r1 ranks2 of
             Inl e \<Rightarrow> Inl e
           | Inr ds \<Rightarrow> Inr (Fin d # ds)))"

fun distance_matrix :: "cell option list \<Rightarrow> cell option list \<Rightarrow> error + dist list list" where
  "distance_matrix [] ranks2 = Inr []"
| "distance_matrix (r1 # ranks1) ranks2 =
     (case distance_row r1 ranks2 of
        Inl e \<Rightarrow> Inl e
      | Inr ds \<Rightarrow>
          (case distance_matrix ranks1 ranks2 of
             Inl e \<Rightarrow> Inl e
           | Inr dss \<Rightarrow> Inr (ds # dss)))"

text \<open>
  \<^verbatim>\<open>distances.argmin()\<close>: the position, in the flattened array, of the first entry that
  no other entry is below. \<open>argmin_from i best_idx best xs\<close> scans the entries \<open>xs\<close>
  that start at position \<open>i\<close>. numpy raises on an empty array; the array of the
  function is never empty (line 155), and \<open>argmin []\<close> is 0 here.
\<close>

fun argmin_from :: "nat \<Rightarrow> nat \<Rightarrow> dist \<Rightarrow> dist list \<Rightarrow> nat" where
  "argmin_from i best_idx best [] = best_idx"
| "argmin_from i best_idx best (x # xs) =
     (if dist_less x best then argmin_from (i + 1) i x xs
      else argmin_from (i + 1) best_idx best xs)"

definition argmin :: "dist list \<Rightarrow> nat" where
  "argmin xs = (case xs of [] \<Rightarrow> 0 | x # xs' \<Rightarrow> argmin_from 1 0 x xs')"

text \<open>Lines 171 and 172: row \<open>i\<close> and column \<open>j\<close> of the array are set to infinity
  (\<open>n\<close> is the number of columns).\<close>

definition mask_row_col :: "nat \<Rightarrow> nat \<Rightarrow> nat \<Rightarrow> dist list list \<Rightarrow> dist list list" where
  "mask_row_col n i j distances = map (\<lambda>row. row[j := Inf]) (distances[i := replicate n Inf])"

text \<open>
  The loop of lines 165 to 172, for an array of shape \<open>(m, n)\<close>:
  \<^verbatim>\<open>np.unravel_index(idx, (m, n))\<close> is \<open>(idx div n, idx mod n)\<close>.
\<close>

function match_loop :: "nat \<Rightarrow> nat \<Rightarrow> dist list list \<Rightarrow> (nat \<times> nat) list \<Rightarrow> (nat \<times> nat) list" where
  "match_loop m n distances matched_pairs =
     (if length matched_pairs < min m n
      then let min_idx = argmin (concat distances);
               i = min_idx div n;
               j = min_idx mod n
           in match_loop m n (mask_row_col n i j distances) (matched_pairs @ [(i, j)])
      else matched_pairs)"
  by pat_completeness auto
termination
  by (relation "measure (\<lambda>(m, n, distances, matched_pairs). min m n - length matched_pairs)")
    auto

declare match_loop.simps [simp del]

text \<open>
  The labels of the one-row frames of lines 179 to 183, and the row of such a frame:
  the name and the rank of the row of \<open>df1\<close>, and the rank of the row of \<open>df2\<close>.
\<close>

definition fuzzy_columns :: "string list" where
  "fuzzy_columns = [''name'', ''rank_df1'', ''rank_df2'']"

definition joined_row :: "cell frame \<Rightarrow> cell list \<Rightarrow> cell frame \<Rightarrow> cell list \<Rightarrow> cell option list" where
  "joined_row df1 row_df1 df2 row_df2 = [player df1 row_df1, rank df1 row_df1, rank df2 row_df2]"

text \<open>The body of the loop over the duplicate names (lines 150 to 185): the joined rows
  that one name adds to \<^verbatim>\<open>fuzzy_results\<close>.\<close>

definition match_name :: "cell frame \<Rightarrow> cell frame \<Rightarrow> cell option \<Rightarrow> error + cell option list list" where
  "match_name df1 df2 dup_name =
     (let dup_df1 = rows_named df1 dup_name;
          dup_df2 = rows_named df2 dup_name
      in if 0 < length dup_df1 \<and> 0 < length dup_df2
         then (case distance_matrix (map (rank df1) dup_df1) (map (rank df2) dup_df2) of
                 Inl e \<Rightarrow> Inl e
               | Inr distances \<Rightarrow>
                   let matched_pairs = match_loop (length dup_df1) (length dup_df2) distances []
                   in Inr (map (\<lambda>(df1_idx, df2_idx).
                                  joined_row df1 (dup_df1 ! df1_idx) df2 (dup_df2 ! df2_idx))
                             matched_pairs))
         else Inr [])"

text \<open>The loop \<^verbatim>\<open>for dup_name in duplicate_names\<close>.\<close>

fun fuzzy_loop :: "cell frame \<Rightarrow> cell frame \<Rightarrow> cell option list \<Rightarrow> error + cell option list list" where
  "fuzzy_loop df1 df2 [] = Inr []"
| "fuzzy_loop df1 df2 (dup_name # names) =
     (case match_name df1 df2 dup_name of
        Inl e \<Rightarrow> Inl e
      | Inr joined \<Rightarrow>
          (case fuzzy_loop df1 df2 names of
             Inl e \<Rightarrow> Inl e
           | Inr fuzzy_results \<Rightarrow> Inr (joined @ fuzzy_results)))"

subsection \<open>Step 5: the result\<close>

text \<open>
  \<^verbatim>\<open>pd.concat([clean_join, fuzzy_join], ignore_index=True)\<close>: the labels of the clean
  join, then the labels of the fuzzy rows that the clean join does not have; a row of
  the clean join has \<^verbatim>\<open>NaN\<close> under the new labels, and a fuzzy row has its three
  cells under their labels and \<^verbatim>\<open>NaN\<close> elsewhere. The cells keep their values: a
  column of integers that receives \<^verbatim>\<open>NaN\<close> becomes a column of doubles of the same
  values, for integers up to \<open>2 ^ 53\<close> in magnitude (see the note on \<open>Num\<close> above).
\<close>

definition pad_row :: "string list \<Rightarrow> cell list \<Rightarrow> cell option list" where
  "pad_row extra row = map Some row @ map (\<lambda>label. None) extra"

definition reindex_row :: "string list \<Rightarrow> cell option list \<Rightarrow> cell option list" where
  "reindex_row cols joined =
     map (\<lambda>label. case cell_at fuzzy_columns joined label of None \<Rightarrow> None | Some v \<Rightarrow> v) cols"

definition pd_concat :: "cell frame \<Rightarrow> cell option list list \<Rightarrow> cell option frame" where
  "pd_concat clean fuzzy_results =
     (let extra = filter (\<lambda>label. label \<notin> set (columns clean)) fuzzy_columns;
          cols = columns clean @ extra
      in \<lparr>columns = cols,
          rows = map (pad_row extra) (rows clean) @ map (reindex_row cols) fuzzy_results\<rparr>)"

text \<open>Lines 188 to 192: without fuzzy rows the result is the clean join itself, every
  cell present.\<close>

definition final_result :: "cell frame \<Rightarrow> cell option list list \<Rightarrow> cell option frame" where
  "final_result clean fuzzy_results =
     (if fuzzy_results \<noteq> [] then pd_concat clean fuzzy_results
      else \<lparr>columns = columns clean, rows = map (map Some) (rows clean)\<rparr>)"

subsection \<open>The function\<close>

definition fuzzy_join ::
    "(cell option list \<Rightarrow> cell option list) \<Rightarrow> cell frame \<Rightarrow> cell frame \<Rightarrow> error + cell option frame" where
  "fuzzy_join set_order df1 df2 =
     (case pd_merge df1 df2 of
        Inl e \<Rightarrow> Inl e
      | Inr standard_join \<Rightarrow>
          let names = duplicate_names set_order df1 df2;
              clean = clean_join names standard_join
          in (case fuzzy_loop df1 df2 names of
                Inl e \<Rightarrow> Inl e
              | Inr fuzzy_results \<Rightarrow> Inr (final_result clean fuzzy_results)))"

subsection \<open>Well-formed input\<close>

text \<open>Every row has one cell per label.\<close>

definition rectangular :: "'a frame \<Rightarrow> bool" where
  "rectangular df \<longleftrightarrow> (\<forall>row \<in> set (rows df). length row = length (columns df))"

text \<open>Every row has a number in the column \<^verbatim>\<open>Rank\<close>.\<close>

definition ranks_numeric :: "cell frame \<Rightarrow> bool" where
  "ranks_numeric df \<longleftrightarrow> (\<forall>row \<in> set (rows df). is_num (rank df row))"

text \<open>
  Two tables that \<^verbatim>\<open>pd.merge\<close> joins on the name as described above: both have the
  column \<^verbatim>\<open>Player\<close>, and it holds strings; the labels of each table are distinct; and
  the suffix \<^verbatim>\<open>_standings\<close> produces no label twice.
\<close>

definition names_are_strings :: "cell frame \<Rightarrow> bool" where
  "names_are_strings df \<longleftrightarrow>
     ''Player'' \<in> set (columns df) \<and> (\<forall>row \<in> set (rows df). is_str (player df row))"

definition mergeable :: "cell frame \<Rightarrow> cell frame \<Rightarrow> bool" where
  "mergeable df1 df2 \<longleftrightarrow>
     names_are_strings df1 \<and> names_are_strings df2 \<and>
     distinct (columns df1) \<and> distinct (columns df2) \<and>
     distinct (merged_columns (columns df1) (columns df2))"

text \<open>
  The integers that a double holds exactly are those up to \<open>2 ^ 53\<close> in magnitude. A
  table whose numbers are all up to \<open>2 ^ 52\<close> in magnitude: a double holds each of
  them, and the distance of any two of them, exactly.
\<close>

fun exact_cell :: "cell \<Rightarrow> bool" where
  "exact_cell (Num a) = (\<bar>a\<bar> \<le> 2 ^ 52)"
| "exact_cell (Str s) = True"

definition cells_exact :: "cell frame \<Rightarrow> bool" where
  "cells_exact df \<longleftrightarrow> (\<forall>row \<in> set (rows df). \<forall>c \<in> set row. exact_cell c)"

text \<open>A name is ambiguous when it occurs more than once in at least one of the tables.\<close>

definition ambiguous :: "cell frame \<Rightarrow> cell frame \<Rightarrow> cell option \<Rightarrow> bool" where
  "ambiguous df1 df2 nm \<longleftrightarrow>
     1 < count_list (player_column df1) nm \<or> 1 < count_list (player_column df2) nm"

text \<open>The name of a joined row of the fuzzy phase: \<^verbatim>\<open>joined_row['name']\<close>.\<close>

definition fuzzy_name :: "cell option list \<Rightarrow> cell option" where
  "fuzzy_name joined = (case cell_at fuzzy_columns joined ''name'' of None \<Rightarrow> None | Some v \<Rightarrow> v)"

subsection \<open>The plain inner join\<close>

text \<open>
  The inner join of two tables on the name, stated on its own, for tables that are
  \<open>mergeable\<close>: the labels of the first table, then those of the second but the name,
  with the suffix where the first table has the label too; and one row for every pair
  of rows with the same name, holding the cells of the first row, then the cells of the
  second but its name, every cell present. This is what the join is compared with
  when no name repeats.
\<close>

definition plain_inner_join :: "cell frame \<Rightarrow> cell frame \<Rightarrow> error + cell option frame" where
  "plain_inner_join df1 df2 =
     (if ''Player'' \<in> set (columns df1) \<and> ''Player'' \<in> set (columns df2)
      then Inr \<lparr>columns = columns df1 @
                  [if label \<in> set (columns df1) then label @ ''_standings'' else label.
                     label \<leftarrow> columns df2, label \<noteq> ''Player''],
                rows = [map Some (row1 @ [v. (label, v) \<leftarrow> zip (columns df2) row2, label \<noteq> ''Player'']).
                          row1 \<leftarrow> rows df1, row2 \<leftarrow> rows df2, player df1 row1 = player df2 row2]\<rparr>
      else Inl KeyError)"

subsection \<open>The tables of the example\<close>

definition example_A :: "cell frame" where
  "example_A = \<lparr>columns = [''Player'', ''Rank''], rows = [[Str ''Al'', Num 1], [Str ''Al'', Num 5]]\<rparr>"

definition example_B :: "cell frame" where
  "example_B = \<lparr>columns = [''Player'', ''Rank''], rows = [[Str ''Al'', Num 2]]\<rparr>"

text \<open>An array of shape \<open>(m, n)\<close>.\<close>

definition shape :: "nat \<Rightarrow> nat \<Rightarrow> 'a list list \<Rightarrow> bool" where
  "shape m n D \<longleftrightarrow> length D = m \<and> (\<forall>row \<in> set D. length row = n)"

text \<open>The joined rows that a name adds to the fuzzy results, when nothing is raised.\<close>

definition joined_for :: "cell frame \<Rightarrow> cell frame \<Rightarrow> cell option \<Rightarrow> cell option list list" where
  "joined_for df1 df2 nm = (case match_name df1 df2 nm of Inl e \<Rightarrow> [] | Inr joined \<Rightarrow> joined)"

subsection \<open>Two tables with a repeated name\<close>

text \<open>The name \<open>Al\<close> occurs twice in the first table and three times in the second,
  \<open>Bo\<close> once in each, \<open>Cy\<close> in the first only.\<close>

definition table_A :: "cell frame" where
  "table_A = \<lparr>columns = [''Player'', ''Rank'', ''Wins''],
      rows = [[Str ''Al'', Num 1, Num 7], [Str ''Bo'', Num 2, Num 3],
              [Str ''Al'', Num 5, Num 0], [Str ''Cy'', Num 9, Num 0]]\<rparr>"

definition table_B :: "cell frame" where
  "table_B = \<lparr>columns = [''Rank'', ''Player'', ''Deck''],
      rows = [[Num 4, Str ''Al'', Str ''x''], [Num 2, Str ''Al'', Str ''y''],
              [Num 3, Str ''Bo'', Str ''z''], [Num 3, Str ''Al'', Str ''w'']]\<rparr>"


subsection \<open>Results up to the order of the rows\<close>

text \<open>Two runs agree when both raise the same error, or both return frames with the
  same labels and the same rows, each as often as in the other.\<close>

definition same_records :: "error + 'a frame \<Rightarrow> error + 'a frame \<Rightarrow> bool" where
  "same_records res1 res2 =
     (case res1 of
        Inl e1 \<Rightarrow> (case res2 of Inl e2 \<Rightarrow> e1 = e2 | Inr out2 \<Rightarrow> False)
      | Inr out1 \<Rightarrow>
          (case res2 of
             Inl e2 \<Rightarrow> False
           | Inr out2 \<Rightarrow> columns out1 = columns out2 \<and> mset (rows out1) = mset (rows out2)))"

subsection \<open>Two tables with two repeated names\<close>

definition table_C :: "cell frame" where
  "table_C = \<lparr>columns = [''Player'', ''Rank''],
      rows = [[Str ''Al'', Num 1], [Str ''Bo'', Num 2], [Str ''Al'', Num 3], [Str ''Bo'', Num 4]]\<rparr>"

definition table_D :: "cell frame" where
  "table_D = \<lparr>columns = [''Player'', ''Rank''],
      rows = [[Str ''Bo'', Num 1], [Str ''Al'', Num 2]]\<rparr>"

text \<open>Another order of a set: the reverse of the order of the first occurrences.\<close>

definition reversed_order :: "'a list \<Rightarrow> 'a list" where
  "reversed_order xs = rev (remdups xs)"

subsection \<open>Greedy matching by rank distance\<close>

text \<open>
  The matching of the rows of one name, stated on its own. Let \<open>d i j\<close> be the distance
  between row \<open>i\<close> of the first group (of \<open>m\<close> rows) and row \<open>j\<close> of the second (of \<open>n\<close>
  rows). A pair is the greedy choice after the pairs \<open>prev\<close> when its two rows are in no
  pair of \<open>prev\<close>, no two rows that are still free are closer to each other, and among
  the free pairs at the same distance it comes first, row by row. A list of pairs is a
  greedy matching when every pair is the greedy choice after the pairs before it.
\<close>

definition greedy_choice ::
    "(nat \<Rightarrow> nat \<Rightarrow> int) \<Rightarrow> nat \<Rightarrow> nat \<Rightarrow> (nat \<times> nat) list \<Rightarrow> nat \<times> nat \<Rightarrow> bool" where
  "greedy_choice d m n prev p \<longleftrightarrow>
     fst p < m \<and> snd p < n \<and> fst p \<notin> set (map fst prev) \<and> snd p \<notin> set (map snd prev) \<and>
     (\<forall>i < m. \<forall>j < n. i \<notin> set (map fst prev) \<longrightarrow> j \<notin> set (map snd prev) \<longrightarrow>
        d (fst p) (snd p) \<le> d i j \<and>
        (d i j = d (fst p) (snd p) \<longrightarrow> fst p * n + snd p \<le> i * n + j))"

definition greedy_matching ::
    "(nat \<Rightarrow> nat \<Rightarrow> int) \<Rightarrow> nat \<Rightarrow> nat \<Rightarrow> (nat \<times> nat) list \<Rightarrow> bool" where
  "greedy_matching d m n pairs \<longleftrightarrow>
     (\<forall>k < length pairs. greedy_choice d m n (take k pairs) (pairs ! k))"

text \<open>The number in a rank cell, and the distance between row \<open>i\<close> of the rows \<open>G1\<close> of the
  first table and row \<open>j\<close> of the rows \<open>G2\<close> of the second.\<close>

fun rank_value :: "cell option \<Rightarrow> int" where
  "rank_value (Some (Num a)) = a"
| "rank_value c = 0"


text \<open>The state of the greedy loop over the array \<open>D\<close>, for the distances \<open>d\<close>: an entry of
  the array is infinite when its row or its column is in a matched pair, and the
  distance otherwise; and the pairs matched so far are a greedy matching.\<close>

definition loop_invariant ::
    "(nat \<Rightarrow> nat \<Rightarrow> int) \<Rightarrow> nat \<Rightarrow> nat \<Rightarrow> dist list list \<Rightarrow> (nat \<times> nat) list \<Rightarrow> bool" where
  "loop_invariant d m n D mp \<longleftrightarrow>
     shape m n D \<and>
     (\<forall>i < m. \<forall>j < n.
        D ! i ! j = (if i \<in> set (map fst mp) \<or> j \<in> set (map snd mp) then Inf else Fin (d i j))) \<and>
     greedy_matching d m n mp"

section \<open>Properties of the sparse column profiler\<close>

subsection \<open>Counters\<close>

lemma dict_get_Cons_other:
  "k' \<noteq> k \<Longrightarrow> dict_get ((k', v') # c) k d = dict_get c k d"
  by (simp add: dict_get_def)

lemma sum_dict_set_incr:
  "sum_list (map snd (dict_set k (dict_get c k 0 + 1) c)) = sum_list (map snd c) + (1::int)"
proof (induction c)
  case Nil
  show ?case by (simp add: dict_get_def)
next
  case (Cons p c)
  obtain k' v' where p: "p = (k', v')" by (cases p)
  show ?case
  proof (cases "k' = k")
    case True
    then show ?thesis by (simp add: p dict_get_def)
  next
    case False
    then show ?thesis using Cons.IH by (simp add: p dict_get_Cons_other)
  qed
qed

lemma keys_dict_set: "fst ` set (dict_set k v c) = insert k (fst ` set c)"
proof (induction c)
  case Nil show ?case by simp
next
  case (Cons p c)
  obtain k' v' where p: "p = (k', v')" by (cases p)
  show ?case
  proof (cases "k' = k")
    case True then show ?thesis by (simp add: p)
  next
    case False
    then show ?thesis using Cons.IH by (simp add: p insert_commute)
  qed
qed

lemma sum_fold_counter:
  "sum_list (map snd (fold (\<lambda>x c. dict_set x (dict_get c x 0 + 1) c) xs c0))
     = sum_list (map snd c0) + int (length xs)"
  by (induction xs arbitrary: c0) (simp_all add: sum_dict_set_incr)

lemma keys_fold_counter:
  "fst ` set (fold (\<lambda>x c. dict_set x (dict_get c x 0 + 1) c) xs c0) = set xs \<union> fst ` set c0"
  by (induction xs arbitrary: c0) (simp_all add: keys_dict_set)

lemma sum_Counter: "sum_list (map snd (Counter xs)) = int (length xs)"
  by (simp add: Counter_def sum_fold_counter)

lemma keys_Counter: "fst ` set (Counter xs) = set xs"
  by (simp add: Counter_def keys_fold_counter)

lemma dict_set_fresh: "k \<notin> fst ` set c \<Longrightarrow> dict_set k v c = c @ [(k, v)]"
  by (induction c) auto



lemma sum_values_counts:
  "sum_values (map (\<lambda>(k, v). (k, Count v)) c)
     = Some (of_int (sum_list (map (count_int \<circ> snd) c)))"
proof (induction c)
  case Nil show ?case by simp
next
  case (Cons p c)
  obtain k v where p: "p = (k, v)" by (cases p)
  show ?case using Cons by (cases v) (simp_all add: p)
qed

lemma sum_PyInt: "sum_list (map (count_int \<circ> snd) (map (\<lambda>(k, v). (k, PyInt v)) c)) = sum_list (map snd c)"
  by (induction c) auto

lemma keys_PyInt: "fst ` set (map (\<lambda>(k, v). (k, PyInt v)) c) = fst ` set c"
  by (induction c) auto

subsection \<open>Well-formed matrices\<close>

lemma wf_csc_column:
  assumes wf: "wf_csc M" and j: "j < n_cols M"
  shows "j + 1 < length (indptr M)"
    and "indptr M ! j \<le> indptr M ! (j + 1)"
    and "indptr M ! (j + 1) \<le> length (data M)"
proof -
  show len: "j + 1 < length (indptr M)" using wf j by (simp add: wf_csc_def)
  have srt: "sorted (indptr M)" using wf by (simp add: wf_csc_def)
  show "indptr M ! j \<le> indptr M ! (j + 1)"
    using srt len by (simp add: sorted_iff_nth_mono)
  have ne: "indptr M \<noteq> []" using len by auto
  have "indptr M ! (j + 1) \<le> indptr M ! (length (indptr M) - 1)"
    using srt len by (intro sorted_nth_mono) auto
  also have "\<dots> = last (indptr M)" using ne by (simp add: last_conv_nth)
  also have "\<dots> = length (data M)" using wf by (simp add: wf_csc_def)
  finally show "indptr M ! (j + 1) \<le> length (data M)" .
qed

lemma length_slice: "stop \<le> length xs \<Longrightarrow> length (slice xs start stop) = stop - start"
  by (auto simp: slice_def)

lemma distinct_bounded_length:
  assumes "distinct (xs :: nat list)" and "\<forall>i \<in> set xs. i < n"
  shows "length xs \<le> n"
proof -
  have "set xs \<subseteq> {..<n}" using assms(2) by auto
  then have "card (set xs) \<le> card {..<n}" by (intro card_mono) auto
  then show ?thesis using assms(1) by (simp add: distinct_card)
qed

lemma wf_csc_stored:
  assumes wf: "wf_csc M" and j: "j < n_cols M"
  shows "indptr M ! (j + 1) - indptr M ! j \<le> n_rows M"
proof -
  have "indptr M ! (j + 1) \<le> length (indices M)"
    using wf_csc_column(3)[OF wf j] wf by (simp add: wf_csc_def)
  then have "length (col_indices M j) = indptr M ! (j + 1) - indptr M ! j"
    by (simp add: col_indices_def length_slice)
  moreover have "distinct (col_indices M j)" "\<forall>i \<in> set (col_indices M j). i < n_rows M"
    using wf j by (simp_all add: wf_csc_def)
  ultimately show ?thesis using distinct_bounded_length by metis
qed

lemma column_value_counts_False:
  assumes "j + 1 < length (indptr M)"
  shows "column_value_counts M False j = Inr (map (\<lambda>(k, v). (k, Count v)) (column_counter M j))"
  using assms by (simp add: column_value_counts_def)

lemma column_value_counts_True:
  assumes "j + 1 < length (indptr M)"
  shows "column_value_counts M True j = normalize_items (n_rows M) (column_counter M j)"
  using assms by (simp add: column_value_counts_def)

lemma column_counter_unfold:
  "column_counter M j =
     (if 0 < int (n_rows M) - (int (indptr M ! (j + 1)) - int (indptr M ! j))
      then dict_set 0 (NpInt (int (n_rows M) - (int (indptr M ! (j + 1)) - int (indptr M ! j))))
             (map (\<lambda>(k, v). (k, PyInt v)) (Counter (col_data M j)))
      else map (\<lambda>(k, v). (k, PyInt v)) (Counter (col_data M j)))"
  by (simp add: column_counter_def col_data_def Let_def)

lemma map_of_dict_set_other: "k' \<noteq> k \<Longrightarrow> map_of (dict_set k v d) k' = map_of d k'"
  by (induction d) auto

lemma dict_get_dict_set:
  "dict_get (dict_set k v d) k' dflt = (if k' = k then v else dict_get d k' dflt)"
proof (cases "k' = k")
  case True
  have "map_of (dict_set k v d) k = Some v" by (induction d) auto
  then show ?thesis using True by (simp add: dict_get_def)
next
  case False
  then show ?thesis by (simp add: dict_get_def map_of_dict_set_other)
qed

lemma dict_get_fold_counter:
  "dict_get (fold (\<lambda>x c. dict_set x (dict_get c x 0 + 1) c) xs c0) k 0
     = dict_get c0 k 0 + int (count_list xs k)"
  by (induction xs arbitrary: c0) (simp_all add: dict_get_dict_set)

text \<open>\<^verbatim>\<open>Counter(data)[k]\<close> is the number of occurrences of \<open>k\<close> in \<open>data\<close>.\<close>

lemma dict_get_Counter: "dict_get (Counter xs) k 0 = int (count_list xs k)"
  unfolding Counter_def dict_get_fold_counter by (simp add: dict_get_def)

text \<open>An assignment \<^verbatim>\<open>d[k] = v\<close> changes the sum of the values by \<open>v\<close> minus the value
  that the key had.\<close>

lemma sum_dict_set:
  "sum_list (map (count_int \<circ> snd) (dict_set k v c))
     = sum_list (map (count_int \<circ> snd) c) - count_int (dict_get c k (PyInt 0)) + count_int v"
proof (induction c)
  case Nil
  show ?case by (simp add: dict_get_def)
next
  case (Cons p c)
  obtain k' v' where p: "p = (k', v')" by (cases p)
  show ?case
  proof (cases "k' = k")
    case True
    then show ?thesis by (simp add: p dict_get_def)
  next
    case False
    then show ?thesis using Cons.IH by (simp add: p dict_get_def)
  qed
qed

lemma dict_get_PyInt:
  "count_int (dict_get (map (\<lambda>(k, v). (k, PyInt v)) c) k (PyInt 0)) = dict_get c k 0"
  by (induction c) (auto simp: dict_get_def)

text \<open>
  The sum of the counter of a column after line 96. Where the column has an implicit
  zero, the assignment of line 96 puts the number of implicit zeros in the place of the
  number of stored zeros: the sum is the row count less the number of stored zeros.
  Where every row of the column is stored, nothing is assigned and the sum is the row
  count.
\<close>

lemma counter_total:
  assumes wf: "wf_csc M" and j: "j < n_cols M"
  shows "sum_list (map (count_int \<circ> snd) (column_counter M j)) =
     int (n_rows M) -
       (if indptr M ! (j + 1) - indptr M ! j < n_rows M then int (count_list (col_data M j) 0)
        else 0)"
proof -
  let ?start = "indptr M ! j" and ?stop = "indptr M ! (j + 1)"
  let ?c = "map (\<lambda>(k, v). (k, PyInt v)) (Counter (col_data M j))"
  let ?zc = "int (n_rows M) - (int ?stop - int ?start)"
  have le: "?start \<le> ?stop" and st: "?stop - ?start \<le> n_rows M"
    using wf_csc_column(2)[OF wf j] wf_csc_stored[OF wf j] by simp_all
  have len: "length (col_data M j) = ?stop - ?start"
    using wf_csc_column(3)[OF wf j] by (simp add: col_data_def length_slice)
  have sumc: "sum_list (map (count_int \<circ> snd) ?c) = int (?stop - ?start)"
    by (simp only: sum_PyInt sum_Counter len)
  have old: "count_int (dict_get ?c 0 (PyInt 0)) = int (count_list (col_data M j) 0)"
    by (simp only: dict_get_PyInt dict_get_Counter)
  have zc: "(0 < ?zc) = (?stop - ?start < n_rows M)" using le by auto
  show ?thesis
  proof (cases "0 < ?zc")
    case True
    have "sum_list (map (count_int \<circ> snd) (dict_set 0 (NpInt ?zc) ?c))
        = int (?stop - ?start) - int (count_list (col_data M j) 0) + ?zc"
      by (simp only: sum_dict_set sumc old count_int.simps)
    also have "\<dots> = int (n_rows M) - int (count_list (col_data M j) 0)" using le by simp
    finally show ?thesis using True zc by (simp only: column_counter_unfold if_True)
  next
    case False
    then have "int (?stop - ?start) = int (n_rows M)" using le st by simp
    then show ?thesis using False zc sumc by (simp only: column_counter_unfold if_False)
  qed
qed

lemma columns_loop_all:
  assumes "\<And>j. j \<in> set js \<Longrightarrow> column_value_counts M nrm j = Inr (f j)"
  shows "columns_loop M nrm js = Inr (map f js)"
  using assms by (induction js) simp_all

subsection \<open>The sum of the buckets\<close>

text \<open>
  With \<^verbatim>\<open>normalize=False\<close> the buckets of a column of a well-formed matrix sum to the
  row count less the number of stored zeros, where the column has an implicit zero, and
  to the row count where it has none. So they sum to the row count exactly when the
  column stores no zero or stores all its rows.
\<close>

lemma column_counts_sum:
  assumes wf: "wf_csc M" and j: "j < n_cols M"
  shows "\<exists>p. column_value_counts M False j = Inr p \<and>
     sum_values p = Some (of_int (int (n_rows M) -
       (if indptr M ! (j + 1) - indptr M ! j < n_rows M then int (count_list (col_data M j) 0)
        else 0)))"
proof -
  have len: "j + 1 < length (indptr M)" by (rule wf_csc_column(1)[OF wf j])
  show ?thesis
  proof (intro exI conjI)
    show "column_value_counts M False j = Inr (map (\<lambda>(k, v). (k, Count v)) (column_counter M j))"
      by (rule column_value_counts_False[OF len])
    show "sum_values (map (\<lambda>(k, v). (k, Count v)) (column_counter M j)) =
        Some (of_int (int (n_rows M) -
          (if indptr M ! (j + 1) - indptr M ! j < n_rows M then int (count_list (col_data M j) 0)
           else 0)))"
      by (simp only: sum_values_counts counter_total[OF wf j])
  qed
qed

text \<open>
  Claim C2: the buckets of every column sum to the row count when
  \<^verbatim>\<open>normalize=False\<close>. The code does not do this where a column stores an explicit zero
  and has an implicit one. On the matrix of two rows and one column that stores an
  explicit zero in row 1, the buckets should sum to 2; the function returns the single
  bucket \<open>0 \<mapsto> 1\<close>, whose sum is 1, because the assignment of line 96 replaces the
  count of the stored zero by the number of implicit zeros instead of adding to it.
\<close>

theorem bucket_sum_below_row_count:
  "sparse_column_value_counts
     \<lparr>n_rows = 2, n_cols = 1, indptr = [0, 1], indices = [1], data = [0]\<rparr> False
       = Inr [[(0, Count (NpInt 1))]] \<and>
   sum_values [(0, Count (NpInt 1))] = Some 1"
  by (simp add: sparse_column_value_counts_def column_value_counts_def column_counter_def
      slice_def Counter_def dict_get_def)

subsection \<open>The zero bucket\<close>

lemma map_of_dict_set: "map_of (dict_set k v d) k = Some v"
  by (induction d) auto

text \<open>What line 96 does: where a column has implicit zeros, the zero bucket is their
  number, whatever the counter held for the key 0 before.\<close>

lemma zero_bucket_assigned:
  assumes "int (indptr M ! (j + 1)) - int (indptr M ! j) < int (n_rows M)"
  shows "map_of (column_counter M j) 0 =
     Some (NpInt (int (n_rows M) - (int (indptr M ! (j + 1)) - int (indptr M ! j))))"
  using assms by (simp add: column_counter_unfold map_of_dict_set)

text \<open>
  Claim C1: the value reported for the key 0 is the number of implicit zeros plus the
  number of explicitly stored zeros. The code does not do this. On the matrix of three
  rows and one column that stores an explicit zero in row 0, the zero bucket should be
  \<open>(3 - 1) + 1 = 3\<close>; the function reports 2, because the assignment of line 96
  replaces the count of the stored zero instead of adding to it.
\<close>

theorem zero_bucket_overwrites_stored_zero:
  "sparse_column_value_counts
     \<lparr>n_rows = 3, n_cols = 1, indptr = [0, 1], indices = [0], data = [0]\<rparr> False
   = Inr [[(0, Count (NpInt 2))]]"
  by (simp add: sparse_column_value_counts_def column_value_counts_def column_counter_def
      slice_def Counter_def dict_get_def)

subsection \<open>A matrix without rows\<close>

lemma column_counter_zero_rows:
  assumes wf: "wf_csc M" and j: "j < n_cols M" and z: "n_rows M = 0"
  shows "column_counter M j = []"
proof -
  have "indptr M ! (j + 1) - indptr M ! j = 0"
    using wf_csc_stored[OF wf j] z by simp
  moreover have "indptr M ! j \<le> indptr M ! (j + 1)" by (rule wf_csc_column(2)[OF wf j])
  ultimately have eq: "indptr M ! (j + 1) = indptr M ! j" by simp
  have "col_data M j = []" using eq by (simp add: col_data_def slice_def)
  then show ?thesis using z eq by (simp add: column_counter_unfold Counter_def)
qed

text \<open>
  Claim C5, as amended. On a well-formed matrix with zero rows the profiler raises
  nothing, with or without normalisation: no division takes place, and the result is one
  empty profile per column.
\<close>

theorem zero_rows_profile_empty:
  assumes wf: "wf_csc M" and z: "n_rows M = 0"
  shows "sparse_column_value_counts M nrm = Inr (replicate (n_cols M) [])"
proof -
  have "column_value_counts M nrm j = Inr []" if "j \<in> set [0..<n_cols M]" for j
  proof -
    have j: "j < n_cols M" using that by simp
    have len: "j + 1 < length (indptr M)" by (rule wf_csc_column(1)[OF wf j])
    show ?thesis
      using len by (simp add: column_value_counts_def column_counter_zero_rows[OF wf j z])
  qed
  then have "columns_loop M nrm [0..<n_cols M] = Inr (map (\<lambda>_. []) [0..<n_cols M])"
    by (rule columns_loop_all)
  then show ?thesis
    by (simp add: sparse_column_value_counts_def map_replicate_const)
qed

text \<open>The witness: the matrix of no rows and three columns.\<close>

theorem zero_rows_profile_empty_witness:
  "wf_csc \<lparr>n_rows = 0, n_cols = 3, indptr = [0, 0, 0, 0], indices = [], data = []\<rparr> \<and>
   n_rows \<lparr>n_rows = 0, n_cols = 3, indptr = [0, 0, 0, 0], indices = [], data = []\<rparr> = 0 \<and>
   sparse_column_value_counts
     \<lparr>n_rows = 0, n_cols = 3, indptr = [0, 0, 0, 0], indices = [], data = []\<rparr> True
       = Inr [[], [], []]"
proof -
  let ?M = "\<lparr>n_rows = 0, n_cols = 3, indptr = [0, 0, 0, 0], indices = [], data = []\<rparr>"
  have wf: "wf_csc ?M"
    by (simp add: wf_csc_def col_indices_def slice_def upt_rec)
  have z: "n_rows ?M = 0" by simp
  show ?thesis
    using wf z zero_rows_profile_empty[OF wf z, of True] by (simp add: numeral_3_eq_3)
qed

text \<open>
  Claim C5 as stated fails: with zero rows and \<^verbatim>\<open>normalize=True\<close> the function returns
  a list of empty profiles, not an error.
\<close>

theorem zero_rows_normalize_counterexample:
  "sparse_column_value_counts
     \<lparr>n_rows = 0, n_cols = 2, indptr = [0, 0, 0], indices = [], data = []\<rparr> True
   = Inr [[], []]"
  by (simp add: sparse_column_value_counts_def column_value_counts_def column_counter_def
      slice_def Counter_def upt_rec)

section \<open>Properties of the fuzzy join\<close>

subsection \<open>The order of a set, and duplicates\<close>

lemma valid_set_order_Nil: "valid_set_order ord [] \<Longrightarrow> ord [] = []"
  by (simp add: valid_set_order_def)

lemma valid_set_order_single:
  assumes "valid_set_order ord [x]"
  shows "ord [x] = [x]"
proof -
  have d: "distinct (ord [x])" and s: "set (ord [x]) = {x}"
    using assms by (simp_all add: valid_set_order_def)
  show ?thesis
  proof (cases "ord [x]")
    case Nil
    then show ?thesis using s by simp
  next
    case (Cons y ys)
    then have "y = x" "set ys \<subseteq> {x}" "y \<notin> set ys" using d s by auto
    then have "ys = []" by (cases ys) auto
    then show ?thesis using Cons \<open>y = x\<close> by simp
  qed
qed

lemma distinct_count_list_le1: "distinct xs \<Longrightarrow> count_list xs x \<le> 1"
  by (induction xs) auto

lemma duplicated_distinct: "distinct xs \<Longrightarrow> duplicated xs = []"
proof -
  assume "distinct xs"
  then have "\<And>x. \<not> 1 < count_list xs x"
    using distinct_count_list_le1[of xs] by (simp add: not_less)
  then show ?thesis by (simp add: duplicated_def)
qed

lemma set_duplicated: "set (duplicated xs) = {x. 1 < count_list xs x}"
proof -
  have "1 < count_list xs x \<Longrightarrow> x \<in> set xs" for x
    by (rule ccontr) simp
  then show ?thesis by (auto simp: duplicated_def)
qed


subsection \<open>The greedy loop\<close>

lemma match_loop_done:
  "\<not> length matched_pairs < min m n \<Longrightarrow> match_loop m n distances matched_pairs = matched_pairs"
  by (subst match_loop.simps) (simp only: if_False)

lemma match_loop_step:
  "length matched_pairs < min m n \<Longrightarrow>
   match_loop m n distances matched_pairs =
     match_loop m n
       (mask_row_col n (argmin (concat distances) div n) (argmin (concat distances) mod n) distances)
       (matched_pairs @ [(argmin (concat distances) div n, argmin (concat distances) mod n)])"
  by (subst match_loop.simps) (simp only: if_True Let_def)


lemma argmin_from_bound:
  "best_idx < i \<Longrightarrow> argmin_from i best_idx best xs < i + length xs"
proof (induction xs arbitrary: i best_idx best)
  case Nil
  then show ?case by simp
next
  case (Cons x xs)
  have a: "argmin_from (i + 1) i x xs < (i + 1) + length xs"
    by (rule Cons.IH) simp
  have b: "argmin_from (i + 1) best_idx best xs < (i + 1) + length xs"
    by (rule Cons.IH) (use Cons.prems in simp)
  show ?case using a b by simp
qed

lemma argmin_less_length: "xs \<noteq> [] \<Longrightarrow> argmin xs < length xs"
proof (cases xs)
  case Nil
  assume "xs \<noteq> []"
  with Nil show ?thesis by simp
next
  case (Cons x xs')
  have "argmin_from 1 0 x xs' < 1 + length xs'" by (rule argmin_from_bound) simp
  then show ?thesis by (simp add: argmin_def Cons)
qed

lemma length_concat_shape: "shape m n D \<Longrightarrow> length (concat D) = m * n"
proof (induction D arbitrary: m)
  case Nil
  then show ?case by (simp add: shape_def)
next
  case (Cons row D)
  then have "shape (length D) n D" "length row = n" "m = Suc (length D)"
    by (auto simp: shape_def)
  then show ?case using Cons.IH[of "length D"] by simp
qed

lemma shape_mask: "shape m n D \<Longrightarrow> shape m n (mask_row_col n i j D)"
  by (auto simp: shape_def mask_row_col_def dest!: set_update_subset_insert[THEN subsetD])

lemma match_loop_in_range:
  assumes "shape m n D" and "\<forall>(i, j) \<in> set mp. i < m \<and> j < n"
  shows "\<forall>(i, j) \<in> set (match_loop m n D mp). i < m \<and> j < n"
  using assms
proof (induction m n D mp rule: match_loop.induct)
  case (1 m n distances matched_pairs)
  show ?case
  proof (cases "length matched_pairs < min m n")
    case True
    then have pos: "0 < m" "0 < n" by auto
    let ?idx = "argmin (concat distances)"
    have len: "length (concat distances) = m * n"
      by (rule length_concat_shape[OF "1.prems"(1)])
    then have "0 < length (concat distances)" using pos by simp
    then have "concat distances \<noteq> []" by auto
    then have "?idx < m * n" using argmin_less_length len by metis
    then have r: "?idx div n < m" "?idx mod n < n"
      using pos by (simp_all add: less_mult_imp_div_less)
    have "\<forall>(i, j) \<in> set (match_loop m n (mask_row_col n (?idx div n) (?idx mod n) distances)
             (matched_pairs @ [(?idx div n, ?idx mod n)])). i < m \<and> j < n"
      using "1.IH"[OF True refl refl refl shape_mask[OF "1.prems"(1)]] "1.prems"(2) r by auto
    then show ?thesis by (simp only: match_loop_step[OF True])
  next
    case False
    then show ?thesis using "1.prems"(2) by (simp only: match_loop_done[OF False])
  qed
qed

subsection \<open>The distance matrix\<close>


lemma distance_row_length:
  "distance_row r1 ranks2 = Inr ds \<Longrightarrow> length ds = length ranks2"
  by (induction ranks2 arbitrary: ds) (auto split: sum.splits)

lemma distance_matrix_shape:
  "distance_matrix ranks1 ranks2 = Inr D \<Longrightarrow> shape (length ranks1) (length ranks2) D"
proof (induction ranks1 arbitrary: D)
  case Nil
  then show ?case by (simp add: shape_def)
next
  case (Cons r1 ranks1)
  then obtain ds dss where d: "distance_row r1 ranks2 = Inr ds"
    "distance_matrix ranks1 ranks2 = Inr dss" "D = ds # dss"
    by (auto split: sum.splits)
  then show ?case
    using Cons.IH[OF d(2)] distance_row_length[OF d(1)] by (simp add: shape_def)
qed



subsection \<open>The tie-break of \<^verbatim>\<open>argmin\<close>\<close>

lemma dist_less_irrefl: "\<not> dist_less d d"
  by (cases d) simp_all

lemma dist_less_below:
  "dist_less x b \<Longrightarrow> \<not> dist_less y b \<Longrightarrow> dist_less x y"
  by (cases x; cases b; cases y) simp_all

lemma dist_less_not_trans:
  "\<not> dist_less x b \<Longrightarrow> \<not> dist_less b y \<Longrightarrow> \<not> dist_less x y"
  by (cases x; cases b; cases y) simp_all

lemma dist_less_asym: "dist_less x y \<Longrightarrow> \<not> dist_less y x"
  by (cases x; cases y) simp_all

lemma argmin_from_first_minimum:
  assumes "best_idx < length pre" and "best = pre ! best_idx"
    and "\<forall>k < length pre. \<not> dist_less (pre ! k) best"
    and "\<forall>k < best_idx. dist_less best (pre ! k)"
  shows "argmin_from (length pre) best_idx best xs < length (pre @ xs) \<and>
         (\<forall>k < length (pre @ xs).
            \<not> dist_less ((pre @ xs) ! k) ((pre @ xs) ! argmin_from (length pre) best_idx best xs)) \<and>
         (\<forall>k < argmin_from (length pre) best_idx best xs.
            dist_less ((pre @ xs) ! argmin_from (length pre) best_idx best xs) ((pre @ xs) ! k))"
  using assms
proof (induction xs arbitrary: pre best_idx best)
  case Nil
  then show ?case by simp
next
  case (Cons x xs)
  let ?pre = "pre @ [x]"
  have len: "length ?pre = length pre + 1" by simp
  show ?case
  proof (cases "dist_less x best")
    case True
    have a: "length pre < length ?pre" by simp
    have b: "x = ?pre ! length pre" by simp
    have c: "\<forall>k < length ?pre. \<not> dist_less (?pre ! k) x"
    proof (intro allI impI)
      fix k assume "k < length ?pre"
      then consider "k < length pre" | "k = length pre" by (auto simp: less_Suc_eq)
      then show "\<not> dist_less (?pre ! k) x"
      proof cases
        case 1
        then have "\<not> dist_less (pre ! k) best" using Cons.prems(3) by simp
        then have "dist_less x (pre ! k)" using True dist_less_below by blast
        then have "\<not> dist_less (pre ! k) x" by (rule dist_less_asym)
        moreover have "?pre ! k = pre ! k" using 1 by (simp add: nth_append)
        ultimately show ?thesis by simp
      next
        case 2
        then show ?thesis by (simp add: dist_less_irrefl)
      qed
    qed
    have d: "\<forall>k < length pre. dist_less x (?pre ! k)"
    proof (intro allI impI)
      fix k assume k: "k < length pre"
      then have "\<not> dist_less (pre ! k) best" using Cons.prems(3) by simp
      then have "dist_less x (pre ! k)" using True dist_less_below by blast
      moreover have "?pre ! k = pre ! k" using k by (simp add: nth_append)
      ultimately show "dist_less x (?pre ! k)" by simp
    qed
    have e1: "argmin_from (length pre) best_idx best (x # xs) =
        argmin_from (length ?pre) (length pre) x xs"
      using True by simp
    have e2: "pre @ x # xs = ?pre @ xs" by simp
    show ?thesis unfolding e1 e2 by (rule Cons.IH[OF a b c d])
  next
    case False
    have a: "best_idx < length ?pre" using Cons.prems(1) by simp
    have b: "best = ?pre ! best_idx" using Cons.prems(1,2) by (simp add: nth_append)
    have c: "\<forall>k < length ?pre. \<not> dist_less (?pre ! k) best"
    proof (intro allI impI)
      fix k assume "k < length ?pre"
      then consider "k < length pre" | "k = length pre" by (auto simp: less_Suc_eq)
      then show "\<not> dist_less (?pre ! k) best"
      proof cases
        case 1
        then have "?pre ! k = pre ! k" by (simp add: nth_append)
        then show ?thesis using Cons.prems(3) 1 by simp
      next
        case 2
        then have "?pre ! k = x" by simp
        then show ?thesis using False by simp
      qed
    qed
    have d: "\<forall>k < best_idx. dist_less best (?pre ! k)"
      using Cons.prems(1,4) by (simp add: nth_append)
    have e1: "argmin_from (length pre) best_idx best (x # xs) =
        argmin_from (length ?pre) best_idx best xs"
      using False by simp
    have e2: "pre @ x # xs = ?pre @ xs" by simp
    show ?thesis unfolding e1 e2 by (rule Cons.IH[OF a b c d])
  qed
qed

text \<open>The tie-break: \<open>argmin\<close> returns a position of the array, no entry is below the
  entry there, and every entry before it is above it: it is the first minimum in the
  row-major scan.\<close>

lemma argmin_first_minimum:
  assumes "xs \<noteq> []"
  shows "argmin xs < length xs \<and>
         (\<forall>k < length xs. \<not> dist_less (xs ! k) (xs ! argmin xs)) \<and>
         (\<forall>k < argmin xs. dist_less (xs ! argmin xs) (xs ! k))"
proof -
  obtain x xs' where xs: "xs = x # xs'" using assms by (cases xs) auto
  have "argmin_from (length [x]) 0 x xs' < length ([x] @ xs') \<and>
         (\<forall>k < length ([x] @ xs').
            \<not> dist_less (([x] @ xs') ! k) (([x] @ xs') ! argmin_from (length [x]) 0 x xs')) \<and>
         (\<forall>k < argmin_from (length [x]) 0 x xs'.
            dist_less (([x] @ xs') ! argmin_from (length [x]) 0 x xs') (([x] @ xs') ! k))"
    by (rule argmin_from_first_minimum) (simp_all add: dist_less_irrefl)
  then show ?thesis by (simp add: argmin_def xs)
qed

subsection \<open>The greedy loop matches by rank distance\<close>

lemma concat_nth_shape:
  "shape m n D \<Longrightarrow> i < m \<Longrightarrow> j < n \<Longrightarrow> concat D ! (i * n + j) = D ! i ! j"
proof (induction D arbitrary: m i)
  case Nil
  then show ?case by (simp add: shape_def)
next
  case (Cons row D)
  have len: "length row = n" and sh: "shape (length D) n D" and m: "m = Suc (length D)"
    using Cons.prems(1) by (auto simp: shape_def)
  show ?case
  proof (cases i)
    case 0
    then show ?thesis using len Cons.prems(3) by (simp add: nth_append)
  next
    case (Suc i')
    then have i': "i' < length D" using Cons.prems(2) m by simp
    have "(row @ concat D) ! (n + (i' * n + j)) = concat D ! (i' * n + j)"
      using len by (simp add: nth_append)
    then show ?thesis
      using Cons.IH[OF sh i' Cons.prems(3)] Suc by (simp add: add.assoc)
  qed
qed

lemma mask_row_col_nth:
  assumes "shape m n D" and "i' < m" and "j' < n"
  shows "mask_row_col n i j D ! i' ! j' = (if i' = i \<or> j' = j then Inf else D ! i' ! j')"
proof -
  let ?R = "D[i := replicate n Inf] ! i'"
  have len: "length D = m" and row: "length (D ! i') = n"
    using assms(1,2) by (auto simp: shape_def)
  have R: "?R = (if i' = i then replicate n Inf else D ! i')"
    using assms(2) len by (simp add: nth_list_update)
  have lenR: "length ?R = n" using R row by simp
  have Rj: "?R ! j' = (if i' = i then Inf else D ! i' ! j')"
    using R assms(3) by simp
  have "mask_row_col n i j D ! i' = ?R[j := Inf]"
    using assms(2) len by (simp add: mask_row_col_def)
  then have "mask_row_col n i j D ! i' ! j' = (if j' = j then Inf else ?R ! j')"
    using assms(3) lenR by (simp only: nth_list_update) simp
  then show ?thesis unfolding Rj by auto
qed

lemma unmatched_index:
  assumes "length (xs :: nat list) < m"
  shows "\<exists>i < m. i \<notin> set xs"
proof (rule ccontr)
  assume "\<not> (\<exists>i < m. i \<notin> set xs)"
  then have "{..<m} \<subseteq> set xs" by auto
  then have "card {..<m} \<le> card (set xs)" by (intro card_mono) auto
  then have "m \<le> length xs" using card_length[of xs] by simp
  then show False using assms by simp
qed



lemma greedy_matching_Nil: "greedy_matching d m n []"
  by (simp add: greedy_matching_def)

lemma greedy_matching_snoc:
  assumes "greedy_matching d m n mp" and "greedy_choice d m n mp p"
  shows "greedy_matching d m n (mp @ [p])"
  unfolding greedy_matching_def
proof (intro allI impI)
  fix k assume "k < length (mp @ [p])"
  then consider "k < length mp" | "k = length mp" by (auto simp: less_Suc_eq)
  then show "greedy_choice d m n (take k (mp @ [p])) ((mp @ [p]) ! k)"
  proof cases
    case 1
    then have "take k (mp @ [p]) = take k mp" "(mp @ [p]) ! k = mp ! k"
      by (simp_all add: nth_append)
    then show ?thesis using assms(1) 1 by (simp add: greedy_matching_def)
  next
    case 2
    then show ?thesis using assms(2) by simp
  qed
qed

lemma greedy_matching_butlast:
  assumes "greedy_matching d m n (mp @ [p])"
  shows "greedy_matching d m n mp" and "greedy_choice d m n mp p"
proof -
  show "greedy_matching d m n mp"
    unfolding greedy_matching_def
  proof (intro allI impI)
    fix k assume k: "k < length mp"
    then have "greedy_choice d m n (take k (mp @ [p])) ((mp @ [p]) ! k)"
      using assms by (simp add: greedy_matching_def)
    then show "greedy_choice d m n (take k mp) (mp ! k)"
      using k by (simp add: nth_append)
  qed
  have "length mp < length (mp @ [p])" by simp
  then have "greedy_choice d m n (take (length mp) (mp @ [p])) ((mp @ [p]) ! length mp)"
    using assms unfolding greedy_matching_def by blast
  then show "greedy_choice d m n mp p" by simp
qed

text \<open>A greedy matching uses no row of the first group twice and no row of the second
  group twice, and only rows of the two groups.\<close>

lemma greedy_matching_distinct:
  assumes "greedy_matching d m n pairs"
  shows "distinct (map fst pairs) \<and> distinct (map snd pairs) \<and>
         (\<forall>p \<in> set pairs. fst p < m \<and> snd p < n)"
  using assms
proof (induction pairs rule: rev_induct)
  case Nil
  show ?case by simp
next
  case (snoc p pairs)
  have gm: "greedy_matching d m n pairs" and gc: "greedy_choice d m n pairs p"
    using greedy_matching_butlast[OF snoc.prems] by simp_all
  have "fst p \<notin> set (map fst pairs)" "snd p \<notin> set (map snd pairs)" "fst p < m" "snd p < n"
    using gc by (simp_all add: greedy_choice_def)
  then show ?case using snoc.IH[OF gm] by simp
qed

text \<open>There is one greedy choice after given pairs, so there is one greedy matching of
  a given length: the distances fix the pairs and their order.\<close>

lemma row_major_index_inj:
  assumes "a * n + b = a' * n + b'" and "b < n" and "b' < (n :: nat)"
  shows "a = a' \<and> b = b'"
proof -
  have "(a * n + b) div n = a" "(a' * n + b') div n = a'"
    "(a * n + b) mod n = b" "(a' * n + b') mod n = b'"
    using assms(2,3) by simp_all
  then show ?thesis using assms(1) by metis
qed

lemma greedy_choice_unique:
  assumes p: "greedy_choice d m n prev p" and q: "greedy_choice d m n prev q"
  shows "p = q"
proof -
  have fp: "fst p < m" "snd p < n" "fst p \<notin> set (map fst prev)" "snd p \<notin> set (map snd prev)"
    and fq: "fst q < m" "snd q < n" "fst q \<notin> set (map fst prev)" "snd q \<notin> set (map snd prev)"
    using p q by (simp_all add: greedy_choice_def)
  have lp: "\<And>i j. i < m \<Longrightarrow> j < n \<Longrightarrow> i \<notin> set (map fst prev) \<Longrightarrow> j \<notin> set (map snd prev) \<Longrightarrow>
      d (fst p) (snd p) \<le> d i j \<and> (d i j = d (fst p) (snd p) \<longrightarrow> fst p * n + snd p \<le> i * n + j)"
    using p unfolding greedy_choice_def by blast
  have lq: "\<And>i j. i < m \<Longrightarrow> j < n \<Longrightarrow> i \<notin> set (map fst prev) \<Longrightarrow> j \<notin> set (map snd prev) \<Longrightarrow>
      d (fst q) (snd q) \<le> d i j \<and> (d i j = d (fst q) (snd q) \<longrightarrow> fst q * n + snd q \<le> i * n + j)"
    using q unfolding greedy_choice_def by blast
  note a = lp[OF fq] and b = lq[OF fp]
  have e: "d (fst p) (snd p) = d (fst q) (snd q)" using a b by simp
  have "fst p * n + snd p \<le> fst q * n + snd q" "fst q * n + snd q \<le> fst p * n + snd p"
    using a b e by simp_all
  then have "fst p * n + snd p = fst q * n + snd q" by simp
  then have "fst p = fst q \<and> snd p = snd q"
    using fp(2) fq(2) by (rule row_major_index_inj)
  then show ?thesis by (simp add: prod_eq_iff)
qed

lemma greedy_matching_unique:
  assumes ps: "greedy_matching d m n ps" and qs: "greedy_matching d m n qs"
    and len: "length ps = length qs"
  shows "ps = qs"
proof -
  have "take k ps = take k qs" if "k \<le> length ps" for k
    using that
  proof (induction k)
    case 0
    show ?case by simp
  next
    case (Suc k)
    then have k: "k < length ps" "k < length qs" using len by simp_all
    have t: "take k ps = take k qs" using Suc by simp
    have "greedy_choice d m n (take k ps) (ps ! k)"
      using ps k(1) unfolding greedy_matching_def by blast
    moreover have "greedy_choice d m n (take k qs) (qs ! k)"
      using qs k(2) unfolding greedy_matching_def by blast
    then have "greedy_choice d m n (take k ps) (qs ! k)" by (simp only: t)
    ultimately have "ps ! k = qs ! k" by (rule greedy_choice_unique)
    then show ?case using t k by (simp add: take_Suc_conv_app_nth)
  qed
  from this[of "length ps"] show ?thesis using len by simp
qed


lemma loop_invariant_step:
  assumes inv: "loop_invariant d m n D mp" and lt: "length mp < min m n"
  shows "loop_invariant d m n
           (mask_row_col n (argmin (concat D) div n) (argmin (concat D) mod n) D)
           (mp @ [(argmin (concat D) div n, argmin (concat D) mod n)])"
proof -
  let ?idx = "argmin (concat D)"
  let ?i = "?idx div n" and ?j = "?idx mod n"
  have sh: "shape m n D"
    and ent: "\<forall>i < m. \<forall>j < n.
        D ! i ! j = (if i \<in> set (map fst mp) \<or> j \<in> set (map snd mp) then Inf else Fin (d i j))"
    and gm: "greedy_matching d m n mp"
    using inv by (simp_all add: loop_invariant_def)
  have len_mp: "length (map fst mp) < m" "length (map snd mp) < n" using lt by simp_all
  have pos: "0 < m" "0 < n" using lt by simp_all
  have len: "length (concat D) = m * n" by (rule length_concat_shape[OF sh])
  then have "0 < length (concat D)" using pos by simp
  then have ne: "concat D \<noteq> []" by auto
  note am = argmin_first_minimum[OF ne]
  have idx: "?idx < m * n" using am len by simp
  have i: "?i < m" using idx pos by (simp add: less_mult_imp_div_less)
  have j: "?j < n" using pos by simp
  have pos_idx: "?i * n + ?j = ?idx" by simp
  have at: "concat D ! ?idx = D ! ?i ! ?j"
    using concat_nth_shape[OF sh i j] by simp
  have k_less: "i' * n + j' < length (concat D)" if "i' < m" "j' < n" for i' j'
  proof -
    have "i' * n + j' < i' * n + n" using that(2) by simp
    also have "\<dots> = Suc i' * n" by simp
    also have "\<dots> \<le> m * n" using that(1) by (intro mult_le_mono1) simp
    finally show ?thesis using len by simp
  qed
  have free_entry: "concat D ! (i' * n + j') = Fin (d i' j')"
    if "i' < m" "j' < n" "i' \<notin> set (map fst mp)" "j' \<notin> set (map snd mp)" for i' j'
    using concat_nth_shape[OF sh that(1,2)] ent that by simp
  \<comment> \<open>a row and a column are still free, so the minimum is finite\<close>
  obtain i0 where i0: "i0 < m" "i0 \<notin> set (map fst mp)"
    using unmatched_index[OF len_mp(1)] by auto
  obtain j0 where j0: "j0 < n" "j0 \<notin> set (map snd mp)"
    using unmatched_index[OF len_mp(2)] by auto
  have "\<not> dist_less (concat D ! (i0 * n + j0)) (concat D ! ?idx)"
    using am k_less[OF i0(1) j0(1)] by blast
  then have "\<not> dist_less (Fin (d i0 j0)) (D ! ?i ! ?j)"
    using free_entry[OF i0(1) j0(1) i0(2) j0(2)] at by simp
  then have fin: "D ! ?i ! ?j \<noteq> Inf" by auto
  have here: "D ! ?i ! ?j =
      (if ?i \<in> set (map fst mp) \<or> ?j \<in> set (map snd mp) then Inf else Fin (d ?i ?j))"
    using ent i j by blast
  have free: "?i \<notin> set (map fst mp)" "?j \<notin> set (map snd mp)"
    using fin unfolding here by (auto split: if_splits)
  then have best: "concat D ! ?idx = Fin (d ?i ?j)"
    unfolding at here by simp
  \<comment> \<open>the pair is the greedy choice\<close>
  have least: "d ?i ?j \<le> d i' j' \<and> (d i' j' = d ?i ?j \<longrightarrow> ?i * n + ?j \<le> i' * n + j')"
    if f: "i' < m" "j' < n" "i' \<notin> set (map fst mp)" "j' \<notin> set (map snd mp)" for i' j'
  proof -
    have e: "concat D ! (i' * n + j') = Fin (d i' j')" by (rule free_entry[OF f])
    have "\<not> dist_less (concat D ! (i' * n + j')) (concat D ! ?idx)"
      using am k_less[OF f(1,2)] by blast
    then have a: "d ?i ?j \<le> d i' j'" by (simp add: e best)
    have "?idx \<le> i' * n + j'" if eq: "d i' j' = d ?i ?j"
    proof (rule ccontr)
      assume "\<not> ?idx \<le> i' * n + j'"
      then have "i' * n + j' < ?idx" by simp
      then have "dist_less (concat D ! ?idx) (concat D ! (i' * n + j'))" using am by blast
      then show False by (simp add: e best eq)
    qed
    then show ?thesis using a by (simp only: pos_idx) simp
  qed
  have gc: "greedy_choice d m n mp (?i, ?j)"
    unfolding greedy_choice_def fst_conv snd_conv
    using i j free least by blast
  have "shape m n (mask_row_col n ?i ?j D)" by (rule shape_mask[OF sh])
  moreover have "\<forall>i' < m. \<forall>j' < n. mask_row_col n ?i ?j D ! i' ! j' =
      (if i' \<in> set (map fst (mp @ [(?i, ?j)])) \<or> j' \<in> set (map snd (mp @ [(?i, ?j)]))
       then Inf else Fin (d i' j'))"
    using ent by (auto simp: mask_row_col_nth[OF sh])
  moreover have "greedy_matching d m n (mp @ [(?i, ?j)])"
    by (rule greedy_matching_snoc[OF gm gc])
  ultimately show ?thesis by (simp only: loop_invariant_def)
qed

lemma match_loop_invariant:
  assumes "loop_invariant d m n D mp"
  shows "greedy_matching d m n (match_loop m n D mp)"
  using assms
proof (induction m n D mp rule: match_loop.induct)
  case (1 m n distances matched_pairs)
  show ?case
  proof (cases "length matched_pairs < min m n")
    case True
    show ?thesis
      unfolding match_loop_step[OF True]
      by (rule "1.IH"[OF True refl refl refl loop_invariant_step[OF "1.prems" True]])
  next
    case False
    show ?thesis
      using "1.prems" unfolding match_loop_done[OF False] by (simp add: loop_invariant_def)
  qed
qed

text \<open>The entries of a matrix that was computed are the distances of the ranks, so the
  loop starts in a state that satisfies the invariant.\<close>

lemma rank_distance_Inr:
  "rank_distance r1 r2 = Inr x \<Longrightarrow> x = \<bar>rank_value r1 - rank_value r2\<bar>"
  by (cases "(r1, r2)" rule: rank_distance.cases) auto

lemma distance_row_nth:
  "distance_row r1 ranks2 = Inr ds \<Longrightarrow> j < length ranks2 \<Longrightarrow>
   ds ! j = Fin \<bar>rank_value r1 - rank_value (ranks2 ! j)\<bar>"
proof (induction ranks2 arbitrary: ds j)
  case Nil
  then show ?case by simp
next
  case (Cons r2 ranks2)
  obtain x ds' where x: "rank_distance r1 r2 = Inr x" and ds': "distance_row r1 ranks2 = Inr ds'"
    and ds: "ds = Fin x # ds'"
    using Cons.prems(1) by (auto split: sum.splits)
  show ?case
  proof (cases j)
    case 0
    then show ?thesis using rank_distance_Inr[OF x] ds by simp
  next
    case (Suc j')
    then have "j' < length ranks2" using Cons.prems(2) by simp
    then show ?thesis using Cons.IH[OF ds'] ds Suc by simp
  qed
qed

lemma distance_matrix_nth:
  "distance_matrix ranks1 ranks2 = Inr D \<Longrightarrow> i < length ranks1 \<Longrightarrow> j < length ranks2 \<Longrightarrow>
   D ! i ! j = Fin \<bar>rank_value (ranks1 ! i) - rank_value (ranks2 ! j)\<bar>"
proof (induction ranks1 arbitrary: D i)
  case Nil
  then show ?case by simp
next
  case (Cons r1 ranks1)
  obtain ds dss where ds: "distance_row r1 ranks2 = Inr ds"
    and dss: "distance_matrix ranks1 ranks2 = Inr dss" and D: "D = ds # dss"
    using Cons.prems(1) by (auto split: sum.splits)
  show ?case
  proof (cases i)
    case 0
    then show ?thesis using distance_row_nth[OF ds Cons.prems(3)] D by simp
  next
    case (Suc i')
    then have "i' < length ranks1" using Cons.prems(2) by simp
    then show ?thesis using Cons.IH[OF dss _ Cons.prems(3)] D Suc by simp
  qed
qed

lemma loop_invariant_start:
  assumes "shape m n D" and "\<forall>i < m. \<forall>j < n. D ! i ! j = Fin (d i j)"
  shows "loop_invariant d m n D []"
  using assms by (simp add: loop_invariant_def greedy_matching_Nil)

text \<open>The pairs that the greedy loop matches are a greedy matching for the distances of
  the ranks: each pair is the closest pair of rows that are still free, the first such
  pair in the scan row by row.\<close>

lemma matched_pairs_greedy:
  assumes "distance_matrix ranks1 ranks2 = Inr D"
  shows "greedy_matching (\<lambda>i j. \<bar>rank_value (ranks1 ! i) - rank_value (ranks2 ! j)\<bar>)
           (length ranks1) (length ranks2) (match_loop (length ranks1) (length ranks2) D [])"
proof -
  have "\<forall>i < length ranks1. \<forall>j < length ranks2.
      D ! i ! j = Fin \<bar>rank_value (ranks1 ! i) - rank_value (ranks2 ! j)\<bar>"
    using distance_matrix_nth[OF assms] by blast
  then show ?thesis
    by (intro match_loop_invariant loop_invariant_start distance_matrix_shape[OF assms])
qed

text \<open>They use no row of the first table twice and no row of the second table twice.\<close>

lemma matched_pairs_injective:
  assumes "distance_matrix ranks1 ranks2 = Inr D"
  shows "distinct (map fst (match_loop (length ranks1) (length ranks2) D [])) \<and>
         distinct (map snd (match_loop (length ranks1) (length ranks2) D []))"
  using greedy_matching_distinct[OF matched_pairs_greedy[OF assms]] by blast

subsection \<open>The rows of one name\<close>

lemma fuzzy_name_joined_row: "fuzzy_name (joined_row df1 row1 df2 row2) = player df1 row1"
  by (simp add: fuzzy_name_def joined_row_def fuzzy_columns_def cell_at_def)

lemma match_name_empty:
  "rows_named df1 nm = [] \<or> rows_named df2 nm = [] \<Longrightarrow> match_name df1 df2 nm = Inr []"
  by (auto simp: match_name_def)

lemma match_name_nonempty:
  assumes "rows_named df1 nm \<noteq> []" and "rows_named df2 nm \<noteq> []"
  shows "match_name df1 df2 nm =
     (case distance_matrix (map (rank df1) (rows_named df1 nm)) (map (rank df2) (rows_named df2 nm)) of
        Inl e \<Rightarrow> Inl e
      | Inr distances \<Rightarrow>
          Inr (map (\<lambda>(df1_idx, df2_idx).
                  joined_row df1 (rows_named df1 nm ! df1_idx) df2 (rows_named df2 nm ! df2_idx))
                (match_loop (length (rows_named df1 nm)) (length (rows_named df2 nm)) distances [])))"
  using assms by (simp add: match_name_def Let_def split: sum.splits)

lemma match_name_rows:
  assumes "match_name df1 df2 nm = Inr joined" and "r \<in> set joined"
  shows "\<exists>row1 \<in> set (rows_named df1 nm). \<exists>row2 \<in> set (rows_named df2 nm).
           r = joined_row df1 row1 df2 row2"
proof (cases "rows_named df1 nm = [] \<or> rows_named df2 nm = []")
  case True
  then show ?thesis using assms match_name_empty[OF True] by simp
next
  case False
  let ?G1 = "rows_named df1 nm" and ?G2 = "rows_named df2 nm"
  have ne: "?G1 \<noteq> []" "?G2 \<noteq> []" using False by simp_all
  obtain D where D: "distance_matrix (map (rank df1) ?G1) (map (rank df2) ?G2) = Inr D"
    and j: "joined = map (\<lambda>(df1_idx, df2_idx). joined_row df1 (?G1 ! df1_idx) df2 (?G2 ! df2_idx))
                (match_loop (length ?G1) (length ?G2) D [])"
    using assms(1) by (auto simp: match_name_nonempty[OF ne] split: sum.splits)
  have "shape (length ?G1) (length ?G2) D"
    using distance_matrix_shape[OF D] by simp
  then have rng: "\<forall>(i, j) \<in> set (match_loop (length ?G1) (length ?G2) D []). i < length ?G1 \<and> j < length ?G2"
    by (rule match_loop_in_range) simp
  obtain i k where ik: "(i, k) \<in> set (match_loop (length ?G1) (length ?G2) D [])"
    and r: "r = joined_row df1 (?G1 ! i) df2 (?G2 ! k)"
    using assms(2) j by auto
  have "i < length ?G1" "k < length ?G2" using rng ik by auto
  then have "?G1 ! i \<in> set ?G1" "?G2 ! k \<in> set ?G2" by simp_all
  then show ?thesis using r by blast
qed




lemma joined_for_name:
  assumes "r \<in> set (joined_for df1 df2 nm)"
  shows "fuzzy_name r = nm"
proof (cases "match_name df1 df2 nm")
  case (Inl e)
  then show ?thesis using assms by (simp add: joined_for_def)
next
  case (Inr joined)
  then have "r \<in> set joined" using assms by (simp add: joined_for_def)
  from match_name_rows[OF Inr this]
  obtain row1 row2 where "row1 \<in> set (rows_named df1 nm)" "r = joined_row df1 row1 df2 row2"
    by blast
  then show ?thesis by (simp add: fuzzy_name_joined_row rows_named_def)
qed

subsection \<open>The loop over the names\<close>

lemma fuzzy_loop_Inr_iff:
  "fuzzy_loop df1 df2 names = Inr fz \<longleftrightarrow>
     (\<forall>nm \<in> set names. \<exists>joined. match_name df1 df2 nm = Inr joined) \<and>
     fz = concat (map (joined_for df1 df2) names)"
proof (induction names arbitrary: fz)
  case Nil
  show ?case by auto
next
  case (Cons nm names)
  show ?case
  proof (cases "match_name df1 df2 nm")
    case (Inl e)
    then show ?thesis by simp
  next
    case (Inr joined)
    show ?thesis
    proof (cases "fuzzy_loop df1 df2 names")
      case (Inl e)
      then have "\<not> (\<forall>nm \<in> set names. \<exists>joined. match_name df1 df2 nm = Inr joined)"
        using Cons.IH by auto
      then show ?thesis using Inl Inr by auto
    next
      case Inr2: (Inr rest)
      then have "(\<forall>nm \<in> set names. \<exists>joined. match_name df1 df2 nm = Inr joined)"
        and "rest = concat (map (joined_for df1 df2) names)"
        using Cons.IH[of rest] by auto
      moreover have "joined_for df1 df2 nm = joined" using Inr by (simp add: joined_for_def)
      ultimately show ?thesis using Inr Inr2 by auto
    qed
  qed
qed

lemma filter_concat_joined_for:
  assumes "distinct names"
  shows "filter (\<lambda>r. fuzzy_name r = nm) (concat (map (joined_for df1 df2) names)) =
     (if nm \<in> set names then joined_for df1 df2 nm else [])"
  using assms
proof (induction names)
  case Nil
  show ?case by simp
next
  case (Cons nm' names)
  have f: "filter (\<lambda>r. fuzzy_name r = nm) (joined_for df1 df2 nm') =
      (if nm' = nm then joined_for df1 df2 nm' else [])"
    using joined_for_name[of _ df1 df2 nm'] by (auto simp: filter_empty_conv filter_id_conv)
  show ?case using Cons f by auto
qed

lemma count_player_column: "count_list (player_column df) nm = length (rows_named df nm)"
  by (simp add: count_list_eq_length_filter player_column_def rows_named_def
      filter_map comp_def eq_commute)

lemma duplicate_names_valid:
  assumes "valid_set_order set_order (duplicated (player_column df1) @ duplicated (player_column df2))"
  shows "distinct (duplicate_names set_order df1 df2)"
    and "set (duplicate_names set_order df1 df2) = {nm. ambiguous df1 df2 nm}"
  using assms
  by (auto simp: duplicate_names_def valid_set_order_def set_duplicated ambiguous_def)


subsection \<open>The structure of the result\<close>

text \<open>Tables that are \<open>mergeable\<close> are merged: none of the three errors is raised.\<close>

lemma key_kinds_same:
  assumes "names_are_strings df1" and "names_are_strings df2"
  shows "\<not> key_kinds_differ (player_column df1) (player_column df2)"
proof -
  have no: "\<not> list_all is_num ks" if ne: "ks \<noteq> []" and str: "list_all is_str ks"
    for ks :: "cell option list"
  proof -
    obtain k ks' where ks: "ks = k # ks'" using ne by (cases ks) auto
    then have "is_str k" using str by simp
    then have "\<not> is_num k" by (cases k rule: is_str.cases) simp_all
    then show ?thesis using ks by simp
  qed
  have s1: "list_all is_str (player_column df1)" and s2: "list_all is_str (player_column df2)"
    using assms by (simp_all add: names_are_strings_def player_column_def list_all_iff)
  show ?thesis
    using no[OF _ s1] no[OF _ s2] by (auto simp: key_kinds_differ_def)
qed

lemma pd_merge_mergeable:
  assumes "mergeable df1 df2"
  shows "pd_merge df1 df2 = Inr \<lparr>columns = merged_columns (columns df1) (columns df2),
                rows = concat (map (\<lambda>row1.
                         map (\<lambda>row2. row1 @ drop_key (columns df2) row2)
                           (filter (\<lambda>row2. player df2 row2 = player df1 row1) (rows df2)))
                         (rows df1))\<rparr>"
proof -
  have "names_are_strings df1" "names_are_strings df2"
    and d: "distinct (merged_columns (columns df1) (columns df2))"
    using assms by (simp_all add: mergeable_def)
  then have "''Player'' \<in> set (columns df1)" "''Player'' \<in> set (columns df2)"
    and "\<not> key_kinds_differ (player_column df1) (player_column df2)"
    using key_kinds_same by (simp_all add: names_are_strings_def)
  then show ?thesis using d by (simp add: pd_merge_def)
qed

lemma pd_merge_Inr:
  assumes "mergeable df1 df2"
  shows "\<exists>sj. pd_merge df1 df2 = Inr sj"
  using pd_merge_mergeable[OF assms] by simp

lemma fuzzy_join_Inr_iff:
  "fuzzy_join set_order df1 df2 = Inr out \<longleftrightarrow>
     (\<exists>sj fz. pd_merge df1 df2 = Inr sj \<and>
        fuzzy_loop df1 df2 (duplicate_names set_order df1 df2) = Inr fz \<and>
        out = final_result (clean_join (duplicate_names set_order df1 df2) sj) fz)"
  by (auto simp: fuzzy_join_def Let_def split: sum.splits)


lemma length_rows_final_result:
  "length (rows (final_result clean fz)) = length (rows clean) + length fz"
  by (simp add: final_result_def pd_concat_def Let_def)


subsection \<open>Without duplicate names\<close>

lemma concat_map_if:
  "concat (map (\<lambda>y. if P y then [f y] else []) ys) = map f (filter P ys)"
  by (induction ys) simp_all

lemma map_concat_rows:
  "map g (concat (map (\<lambda>x. map (f x) (filter (P x) ys)) xs)) =
   concat (map (\<lambda>x. concat (map (\<lambda>y. if P x y then [g (f x y)] else []) ys)) xs)"
  by (simp add: map_concat concat_map_if comp_def)

lemma concat_map_if_snd:
  "concat (map (\<lambda>(label, v). if P label then [v] else []) xs) =
   map snd (filter (\<lambda>(label, v). P label) xs)"
  by (induction xs) auto

text \<open>The plain inner join, in terms of the labels and the rows of the merge.\<close>

lemma plain_inner_join_unfold:
  assumes "''Player'' \<in> set (columns df1)" and "''Player'' \<in> set (columns df2)"
  shows "plain_inner_join df1 df2 = Inr \<lparr>columns = merged_columns (columns df1) (columns df2),
           rows = concat (map (\<lambda>row1. concat (map (\<lambda>row2.
                    if player df1 row1 = player df2 row2
                    then [map Some (row1 @ drop_key (columns df2) row2)] else [])
                  (rows df2))) (rows df1))\<rparr>"
  using assms
  by (simp add: plain_inner_join_def merged_columns_def drop_key_def concat_map_if
      concat_map_if_snd)

text \<open>
  Claim C10. Let the two tables be \<open>mergeable\<close> (both have the name column, it holds
  strings, and no label clashes). When no name occurs more than once in either table,
  the join is the plain inner join of the two tables on the name: there is no
  duplicate name, so the clean join keeps every row of the standard join and the fuzzy
  phase adds nothing.
\<close>

theorem no_duplicates_plain_inner_join:
  assumes mg: "mergeable df1 df2"
    and d1: "distinct (player_column df1)" and d2: "distinct (player_column df2)"
    and ord: "valid_set_order set_order (duplicated (player_column df1) @ duplicated (player_column df2))"
  shows "fuzzy_join set_order df1 df2 = plain_inner_join df1 df2"
proof -
  have names: "duplicate_names set_order df1 df2 = []"
    using ord by (simp add: duplicate_names_def duplicated_distinct[OF d1]
        duplicated_distinct[OF d2] valid_set_order_Nil)
  have pl: "''Player'' \<in> set (columns df1)" "''Player'' \<in> set (columns df2)"
    using mg by (simp_all add: mergeable_def names_are_strings_def)
  show ?thesis
    unfolding fuzzy_join_def pd_merge_mergeable[OF mg] plain_inner_join_unfold[OF pl] names
    by (simp add: clean_join_def final_result_def map_concat_rows eq_commute)
qed

text \<open>The witness: two tables without a repeated name, which share the name \<open>Bo\<close>.\<close>

theorem no_duplicates_plain_inner_join_witness:
  "mergeable \<lparr>columns = [''Player'', ''Rank''], rows = [[Str ''Al'', Num 1], [Str ''Bo'', Num 2]]\<rparr>
     \<lparr>columns = [''Rank'', ''Player''], rows = [[Num 7, Str ''Bo''], [Num 3, Str ''Cy'']]\<rparr> \<and>
   distinct (player_column \<lparr>columns = [''Player'', ''Rank''], rows = [[Str ''Al'', Num 1], [Str ''Bo'', Num 2]]\<rparr>) \<and>
   distinct (player_column \<lparr>columns = [''Rank'', ''Player''], rows = [[Num 7, Str ''Bo''], [Num 3, Str ''Cy'']]\<rparr>) \<and>
   valid_set_order remdups
     (duplicated (player_column \<lparr>columns = [''Player'', ''Rank''], rows = [[Str ''Al'', Num 1], [Str ''Bo'', Num 2]]\<rparr>) @
      duplicated (player_column \<lparr>columns = [''Rank'', ''Player''], rows = [[Num 7, Str ''Bo''], [Num 3, Str ''Cy'']]\<rparr>)) \<and>
   fuzzy_join remdups
     \<lparr>columns = [''Player'', ''Rank''], rows = [[Str ''Al'', Num 1], [Str ''Bo'', Num 2]]\<rparr>
     \<lparr>columns = [''Rank'', ''Player''], rows = [[Num 7, Str ''Bo''], [Num 3, Str ''Cy'']]\<rparr>
   = Inr \<lparr>columns = [''Player'', ''Rank'', ''Rank_standings''],
          rows = [[Some (Str ''Bo''), Some (Num 2), Some (Num 7)]]\<rparr>"
proof -
  let ?A = "\<lparr>columns = [''Player'', ''Rank''], rows = [[Str ''Al'', Num 1], [Str ''Bo'', Num 2]]\<rparr>"
  let ?B = "\<lparr>columns = [''Rank'', ''Player''], rows = [[Num 7, Str ''Bo''], [Num 3, Str ''Cy'']]\<rparr>"
  have mg: "mergeable ?A ?B"
    by (simp add: mergeable_def names_are_strings_def merged_columns_def player_def cell_at_def)
  have d1: "distinct (player_column ?A)"
    by (simp add: player_column_def player_def cell_at_def)
  have d2: "distinct (player_column ?B)"
    by (simp add: player_column_def player_def cell_at_def)
  have ord: "valid_set_order remdups (duplicated (player_column ?A) @ duplicated (player_column ?B))"
    by (simp add: valid_set_order_def)
  have "plain_inner_join ?A ?B = Inr \<lparr>columns = [''Player'', ''Rank'', ''Rank_standings''],
          rows = [[Some (Str ''Bo''), Some (Num 2), Some (Num 7)]]\<rparr>"
    by (simp add: plain_inner_join_def player_def cell_at_def)
  then show ?thesis
    using mg d1 d2 ord no_duplicates_plain_inner_join[OF mg d1 d2 ord] by simp
qed


subsection \<open>The example of the specification\<close>

text \<open>
  Claim C6. On the tables \<open>A\<close> = (Al, rank 1), (Al, rank 5) and \<open>B\<close> = (Al, rank 2),
  whatever the order in which the set of duplicate names is listed: the only duplicate
  name is \<open>Al\<close>; the distance matrix is \<open>[[1], [3]]\<close>; the greedy loop matches row 0
  of \<open>A\<close> (rank 1) with row 0 of \<open>B\<close> (rank 2); and the result is the single record
  with \<open>rank_df1 = 1\<close> and \<open>rank_df2 = 2\<close>, the row of rank 5 being dropped. The columns
  of the (empty) clean join are part of the frame and hold \<^verbatim>\<open>NaN\<close> in that record.
\<close>

theorem example_join:
  assumes ord: "valid_set_order set_order [Some (Str ''Al'')]"
  shows "duplicate_names set_order example_A example_B = [Some (Str ''Al'')] \<and>
     distance_matrix (map (rank example_A) (rows_named example_A (Some (Str ''Al''))))
         (map (rank example_B) (rows_named example_B (Some (Str ''Al''))))
       = Inr [[Fin 1], [Fin 3]] \<and>
     match_loop 2 1 [[Fin 1], [Fin 3]] [] = [(0, 0)] \<and>
     fuzzy_join set_order example_A example_B =
       Inr \<lparr>columns = [''Player'', ''Rank'', ''Rank_standings'', ''name'', ''rank_df1'', ''rank_df2''],
            rows = [[None, None, None, Some (Str ''Al''), Some (Num 1), Some (Num 2)]]\<rparr>"
proof -
  have names: "duplicate_names set_order example_A example_B = [Some (Str ''Al'')]"
    using ord
    by (simp add: duplicate_names_def duplicated_def player_column_def player_def cell_at_def
        example_A_def example_B_def valid_set_order_single)
  have dm: "distance_matrix (map (rank example_A) (rows_named example_A (Some (Str ''Al''))))
         (map (rank example_B) (rows_named example_B (Some (Str ''Al''))))
       = Inr [[Fin 1], [Fin 3]]"
    by (simp add: rows_named_def rank_def player_def cell_at_def example_A_def example_B_def)
  have ml: "match_loop 2 1 [[Fin 1], [Fin 3]] [] = [(0, 0)]"
    by (simp add: match_loop.simps argmin_def mask_row_col_def)
  have len: "length (rows_named example_A (Some (Str ''Al''))) = 2"
    "length (rows_named example_B (Some (Str ''Al''))) = 1"
    by (simp_all add: rows_named_def player_def cell_at_def example_A_def example_B_def)
  have mn: "match_name example_A example_B (Some (Str ''Al''))
      = Inr [[Some (Str ''Al''), Some (Num 1), Some (Num 2)]]"
    unfolding match_name_def Let_def dm len
    by (simp add: match_loop.simps argmin_def mask_row_col_def joined_row_def rows_named_def rank_def player_def
        cell_at_def example_A_def example_B_def)
  have mg: "pd_merge example_A example_B =
      Inr \<lparr>columns = [''Player'', ''Rank'', ''Rank_standings''],
           rows = [[Str ''Al'', Num 1, Num 2], [Str ''Al'', Num 5, Num 2]]\<rparr>"
    by (simp add: pd_merge_def key_kinds_differ_def player_column_def merged_columns_def
        drop_key_def player_def cell_at_def example_A_def example_B_def)
  have "fuzzy_join set_order example_A example_B =
       Inr \<lparr>columns = [''Player'', ''Rank'', ''Rank_standings'', ''name'', ''rank_df1'', ''rank_df2''],
            rows = [[None, None, None, Some (Str ''Al''), Some (Num 1), Some (Num 2)]]\<rparr>"
    unfolding fuzzy_join_def mg names
    by (simp add: mn clean_join_def final_result_def pd_concat_def fuzzy_columns_def pad_row_def
        reindex_row_def player_def cell_at_def)
  then show ?thesis using names dm ml by simp
qed

text \<open>The witness: the order that keeps the first occurrences.\<close>

theorem example_join_witness:
  "valid_set_order remdups [Some (Str ''Al'')] \<and>
   fuzzy_join remdups example_A example_B =
       Inr \<lparr>columns = [''Player'', ''Rank'', ''Rank_standings'', ''name'', ''rank_df1'', ''rank_df2''],
            rows = [[None, None, None, Some (Str ''Al''), Some (Num 1), Some (Num 2)]]\<rparr>"
proof -
  have ord: "valid_set_order remdups [Some (Str ''Al'')]" by (simp add: valid_set_order_def)
  show ?thesis using ord example_join[OF ord] by simp
qed


subsection \<open>An ambiguous name\<close>


text \<open>The witness: the name \<open>Al\<close> in the two tables above, twice against three times.\<close>

lemma table_facts:
  "mergeable table_A table_B"
  "ranks_numeric table_A" "ranks_numeric table_B"
  "cells_exact table_A" "cells_exact table_B"
  "rectangular table_A" "rectangular table_B"
  "player_column table_A = [Some (Str ''Al''), Some (Str ''Bo''), Some (Str ''Al''), Some (Str ''Cy'')]"
  "player_column table_B = [Some (Str ''Al''), Some (Str ''Al''), Some (Str ''Bo''), Some (Str ''Al'')]"
  by (simp_all add: table_A_def table_B_def mergeable_def names_are_strings_def
      merged_columns_def ranks_numeric_def cells_exact_def rectangular_def rank_def
      player_column_def player_def cell_at_def)

lemma table_order:
  "valid_set_order remdups (duplicated (player_column table_A) @ duplicated (player_column table_B))"
  by (simp add: valid_set_order_def)

text \<open>The result of the join on these tables.\<close>

lemma table_join: "fuzzy_join remdups table_A table_B =
  Inr \<lparr>columns = [''Player'', ''Rank'', ''Wins'', ''Rank_standings'', ''Deck'',
         ''name'', ''rank_df1'', ''rank_df2''],
        rows =
          [[Some (Str ''Bo''), Some (Num 2), Some (Num 3), Some (Num 3),
            Some (Str ''z''), None, None, None],
           [None, None, None, None, None, Some (Str ''Al''), Some (Num 1),
            Some (Num 2)],
           [None, None, None, None, None, Some (Str ''Al''), Some (Num 5),
            Some (Num 4)]]\<rparr>"
  by code_simp

text \<open>The pairs for the name \<open>Al\<close>: the ranks 1 and 5 against the ranks 4, 2 and 3.
  Rank 1 goes with rank 2 (distance 1, the first of the two pairs at that distance),
  then rank 5 with rank 4; the row of rank 3 is dropped.\<close>

lemma table_pairs:
  "distance_matrix (map (rank table_A) (rows_named table_A (Some (Str ''Al''))))
       (map (rank table_B) (rows_named table_B (Some (Str ''Al''))))
     = Inr [[Fin 3, Fin 1, Fin 2], [Fin 1, Fin 3, Fin 2]]"
  "match_loop 2 3 [[Fin 3, Fin 1, Fin 2], [Fin 1, Fin 3, Fin 2]] [] = [(0, 1), (1, 0)]"
  by code_simp+



subsection \<open>Missing columns\<close>

lemma cell_at_missing: "label \<notin> set cols \<Longrightarrow> cell_at cols row label = None"
proof -
  assume "label \<notin> set cols"
  then have "label \<notin> fst ` set (zip cols row)"
    by (auto dest: set_zip_leftD)
  then show ?thesis by (simp add: cell_at_def map_of_eq_None_iff)
qed

lemma rank_distance_None:
  "r1 = None \<or> r2 = None \<Longrightarrow> rank_distance r1 r2 = Inl AttributeError"
  by (cases r1) auto

lemma distance_matrix_None:
  assumes "r1 = None \<or> r2 = None"
  shows "distance_matrix (r1 # ranks1) (r2 # ranks2) = Inl AttributeError"
  using rank_distance_None[OF assms] by simp

lemma match_name_missing_rank:
  assumes miss: "''Rank'' \<notin> set (columns df1) \<or> ''Rank'' \<notin> set (columns df2)"
  shows "match_name df1 df2 nm =
     (if rows_named df1 nm \<noteq> [] \<and> rows_named df2 nm \<noteq> [] then Inl AttributeError else Inr [])"
proof (cases "rows_named df1 nm \<noteq> [] \<and> rows_named df2 nm \<noteq> []")
  case False
  then show ?thesis using match_name_empty[of df1 nm df2] by auto
next
  case True
  then obtain a G1 b G2 where g: "rows_named df1 nm = a # G1" "rows_named df2 nm = b # G2"
    by (auto simp: neq_Nil_conv)
  have "rank df1 a = None \<or> rank df2 b = None"
    using miss by (auto simp: rank_def cell_at_missing)
  then have "distance_matrix (map (rank df1) (rows_named df1 nm)) (map (rank df2) (rows_named df2 nm))
      = Inl AttributeError"
    by (simp only: g list.map distance_matrix_None)
  then show ?thesis using True by (simp add: match_name_nonempty)
qed

lemma fuzzy_loop_missing_rank:
  assumes miss: "''Rank'' \<notin> set (columns df1) \<or> ''Rank'' \<notin> set (columns df2)"
  shows "fuzzy_loop df1 df2 names =
     (if \<exists>nm \<in> set names. rows_named df1 nm \<noteq> [] \<and> rows_named df2 nm \<noteq> []
      then Inl AttributeError else Inr [])"
proof (induction names)
  case Nil
  show ?case by simp
next
  case (Cons nm names)
  show ?case
    by (simp add: match_name_missing_rank[OF miss] Cons.IH)
qed

text \<open>
  Claim C8, as amended. A table without the name column makes the join raise
  \<^verbatim>\<open>KeyError\<close>, from the merge of its first line, whatever the rows are. Of two
  \<open>mergeable\<close> tables (both have the name column, it holds strings, and no label
  clashes), one of which lacks the rank column, the join raises (\<^verbatim>\<open>AttributeError\<close>,
  from the distance loop) exactly when some ambiguous name has rows in both tables;
  otherwise it returns a result.
\<close>

theorem missing_columns:
  assumes ord: "valid_set_order set_order (duplicated (player_column df1) @ duplicated (player_column df2))"
  shows "(''Player'' \<notin> set (columns df1) \<or> ''Player'' \<notin> set (columns df2) \<longrightarrow>
            fuzzy_join set_order df1 df2 = Inl KeyError) \<and>
         (mergeable df1 df2 \<and>
          (''Rank'' \<notin> set (columns df1) \<or> ''Rank'' \<notin> set (columns df2)) \<longrightarrow>
            (if \<exists>nm. ambiguous df1 df2 nm \<and> rows_named df1 nm \<noteq> [] \<and> rows_named df2 nm \<noteq> []
             then fuzzy_join set_order df1 df2 = Inl AttributeError
             else \<exists>out. fuzzy_join set_order df1 df2 = Inr out))"
proof (intro conjI impI)
  assume "''Player'' \<notin> set (columns df1) \<or> ''Player'' \<notin> set (columns df2)"
  then show "fuzzy_join set_order df1 df2 = Inl KeyError"
    by (auto simp: fuzzy_join_def pd_merge_def)
next
  assume a: "mergeable df1 df2 \<and>
          (''Rank'' \<notin> set (columns df1) \<or> ''Rank'' \<notin> set (columns df2))"
  let ?names = "duplicate_names set_order df1 df2"
  obtain sj where sj: "pd_merge df1 df2 = Inr sj" using pd_merge_Inr a by blast
  have miss: "''Rank'' \<notin> set (columns df1) \<or> ''Rank'' \<notin> set (columns df2)" using a by simp
  have names: "set ?names = {nm. ambiguous df1 df2 nm}" by (rule duplicate_names_valid(2)[OF ord])
  have ex: "(\<exists>nm \<in> set ?names. rows_named df1 nm \<noteq> [] \<and> rows_named df2 nm \<noteq> []) \<longleftrightarrow>
      (\<exists>nm. ambiguous df1 df2 nm \<and> rows_named df1 nm \<noteq> [] \<and> rows_named df2 nm \<noteq> [])"
    using names by blast
  show "if \<exists>nm. ambiguous df1 df2 nm \<and> rows_named df1 nm \<noteq> [] \<and> rows_named df2 nm \<noteq> []
             then fuzzy_join set_order df1 df2 = Inl AttributeError
             else \<exists>out. fuzzy_join set_order df1 df2 = Inr out"
  proof (cases "\<exists>nm. ambiguous df1 df2 nm \<and> rows_named df1 nm \<noteq> [] \<and> rows_named df2 nm \<noteq> []")
    case True
    then have "fuzzy_loop df1 df2 ?names = Inl AttributeError"
      using ex by (simp only: fuzzy_loop_missing_rank[OF miss] if_True)
    then have "fuzzy_join set_order df1 df2 = Inl AttributeError"
      using sj by (simp add: fuzzy_join_def)
    then show ?thesis using True by (simp only: if_True)
  next
    case False
    then have "fuzzy_loop df1 df2 ?names = Inr []"
      using ex by (simp only: fuzzy_loop_missing_rank[OF miss] if_False)
    then have "\<exists>out. fuzzy_join set_order df1 df2 = Inr out"
      using sj by (simp add: fuzzy_join_def)
    then show ?thesis using False by (simp only: if_False)
  qed
qed

text \<open>The witness: a first table without the name column; a first table without the
  rank column where \<open>Al\<close> is ambiguous and in both tables; and the same first table
  against a second one that does not have \<open>Al\<close>.\<close>

theorem missing_columns_witness:
  "mergeable \<lparr>columns = [''Player''], rows = [[Str ''Al''], [Str ''Al'']]\<rparr>
       \<lparr>columns = [''Player'', ''Rank''], rows = [[Str ''Al'', Num 2]]\<rparr> \<and>
   mergeable \<lparr>columns = [''Player''], rows = [[Str ''Al''], [Str ''Al'']]\<rparr>
       \<lparr>columns = [''Player'', ''Rank''], rows = [[Str ''Bo'', Num 2]]\<rparr> \<and>
   fuzzy_join remdups \<lparr>columns = [''Name'', ''Rank''], rows = [[Str ''Al'', Num 1]]\<rparr>
       \<lparr>columns = [''Player'', ''Rank''], rows = [[Str ''Al'', Num 2]]\<rparr> = Inl KeyError \<and>
   fuzzy_join remdups \<lparr>columns = [''Player''], rows = [[Str ''Al''], [Str ''Al'']]\<rparr>
       \<lparr>columns = [''Player'', ''Rank''], rows = [[Str ''Al'', Num 2]]\<rparr> = Inl AttributeError \<and>
   (\<exists>out. fuzzy_join remdups \<lparr>columns = [''Player''], rows = [[Str ''Al''], [Str ''Al'']]\<rparr>
       \<lparr>columns = [''Player'', ''Rank''], rows = [[Str ''Bo'', Num 2]]\<rparr> = Inr out)"
proof -
  let ?A0 = "\<lparr>columns = [''Name'', ''Rank''], rows = [[Str ''Al'', Num 1]]\<rparr> :: cell frame"
  let ?B0 = "\<lparr>columns = [''Player'', ''Rank''], rows = [[Str ''Al'', Num 2]]\<rparr> :: cell frame"
  let ?A1 = "\<lparr>columns = [''Player''], rows = [[Str ''Al''], [Str ''Al'']]\<rparr> :: cell frame"
  let ?B2 = "\<lparr>columns = [''Player'', ''Rank''], rows = [[Str ''Bo'', Num 2]]\<rparr> :: cell frame"
  have o0: "valid_set_order remdups (duplicated (player_column ?A0) @ duplicated (player_column ?B0))"
    and o1: "valid_set_order remdups (duplicated (player_column ?A1) @ duplicated (player_column ?B0))"
    and o2: "valid_set_order remdups (duplicated (player_column ?A1) @ duplicated (player_column ?B2))"
    by (simp_all add: valid_set_order_def)
  have m1: "mergeable ?A1 ?B0" and m2: "mergeable ?A1 ?B2"
    by (simp_all add: mergeable_def names_are_strings_def merged_columns_def player_def
        cell_at_def)
  have k: "fuzzy_join remdups ?A0 ?B0 = Inl KeyError"
    using missing_columns[OF o0] by simp
  have "ambiguous ?A1 ?B0 (Some (Str ''Al'')) \<and> rows_named ?A1 (Some (Str ''Al'')) \<noteq> [] \<and>
      rows_named ?B0 (Some (Str ''Al'')) \<noteq> []"
    by (simp add: ambiguous_def player_column_def rows_named_def player_def cell_at_def)
  then have "\<exists>nm. ambiguous ?A1 ?B0 nm \<and> rows_named ?A1 nm \<noteq> [] \<and> rows_named ?B0 nm \<noteq> []"
    by blast
  then have a: "fuzzy_join remdups ?A1 ?B0 = Inl AttributeError"
    using missing_columns[OF o1] m1 by simp
  have "\<not> (\<exists>nm. ambiguous ?A1 ?B2 nm \<and> rows_named ?A1 nm \<noteq> [] \<and> rows_named ?B2 nm \<noteq> [])"
    by (auto simp: rows_named_def player_def cell_at_def)
  then have s: "\<exists>out. fuzzy_join remdups ?A1 ?B2 = Inr out"
    using missing_columns[OF o2] m2 by simp
  show ?thesis using m1 m2 k a s by blast
qed

text \<open>
  Claim C8 as stated fails: two tables with the name column and no rank column, without
  an ambiguous name, are joined without any error.
\<close>

theorem missing_rank_counterexample:
  "fuzzy_join remdups \<lparr>columns = [''Player''], rows = [[Str ''Al'']]\<rparr>
       \<lparr>columns = [''Player''], rows = [[Str ''Al'']]\<rparr>
     = Inr \<lparr>columns = [''Player''], rows = [[Some (Str ''Al'')]]\<rparr>"
  by (simp add: fuzzy_join_def pd_merge_def key_kinds_differ_def merged_columns_def drop_key_def
      player_def cell_at_def duplicate_names_def duplicated_def player_column_def clean_join_def
      final_result_def)



subsection \<open>The cells of a fuzzy record\<close>

lemma cell_at_map: "cell_at cols (map f cols) label = (if label \<in> set cols then Some (f label) else None)"
  by (simp add: cell_at_def map_of_zip_map)

lemma cell_at_fuzzy_columns:
  "cell_at fuzzy_columns [a, b, c] label =
     (if label = ''name'' then Some a else if label = ''rank_df1'' then Some b
      else if label = ''rank_df2'' then Some c else None)"
  by (simp add: cell_at_def fuzzy_columns_def)

lemma cell_at_reindex_row:
  assumes "label \<in> set cols"
  shows "cell_at cols (reindex_row cols (joined_row df1 row1 df2 row2)) label =
     Some (if label = ''name'' then player df1 row1 else if label = ''rank_df1'' then rank df1 row1
           else if label = ''rank_df2'' then rank df2 row2 else None)"
  using assms by (simp add: reindex_row_def cell_at_map joined_row_def cell_at_fuzzy_columns)

lemma rows_final_result:
  "\<exists>cl. rows (final_result clean fz) = cl @ map (reindex_row (columns (final_result clean fz))) fz \<and>
        length cl = length (rows clean)"
  by (simp add: final_result_def pd_concat_def Let_def)

lemma fuzzy_loop_rows:
  assumes "fuzzy_loop df1 df2 names = Inr fz" and "r \<in> set fz"
  shows "\<exists>row1 \<in> set (rows df1). \<exists>row2 \<in> set (rows df2).
           player df1 row1 = player df2 row2 \<and> r = joined_row df1 row1 df2 row2"
proof -
  have ok: "\<forall>nm \<in> set names. \<exists>joined. match_name df1 df2 nm = Inr joined"
    and fz: "fz = concat (map (joined_for df1 df2) names)"
    using assms(1) by (simp_all add: fuzzy_loop_Inr_iff)
  obtain nm where nm: "nm \<in> set names" "r \<in> set (joined_for df1 df2 nm)"
    using assms(2) fz by auto
  obtain joined where j: "match_name df1 df2 nm = Inr joined" using ok nm(1) by blast
  then have "r \<in> set joined" using nm(2) by (simp add: joined_for_def)
  from match_name_rows[OF j this]
  obtain row1 row2 where rw: "row1 \<in> set (rows_named df1 nm)" "row2 \<in> set (rows_named df2 nm)"
    "r = joined_row df1 row1 df2 row2" by blast
  have "row1 \<in> set (rows df1)" "row2 \<in> set (rows df2)" "player df1 row1 = player df2 row2"
    using rw(1,2) by (simp_all add: rows_named_def)
  then show ?thesis using rw(3) by blast
qed

text \<open>
  Claim C7. Let the two tables be \<open>mergeable\<close>, all their numbers up to \<open>2 ^ 52\<close> in
  magnitude. Whenever the join returns, its rows are those of the clean join
  followed by the fuzzy records, one per matched pair. A fuzzy record is built from a
  row of each table with the same name, and holds three cells: the name and the rank
  of the first row and the rank of the second. In the result it has the name under
  \<^verbatim>\<open>name\<close>, the two ranks under \<^verbatim>\<open>rank_df1\<close> and \<^verbatim>\<open>rank_df2\<close> (as numbers of the same
  value: pandas returns them as doubles), and \<^verbatim>\<open>NaN\<close> under every other label: no
  other cell of the matched rows is in it.
\<close>

theorem fuzzy_records_carry_name_and_ranks:
  assumes ret: "fuzzy_join set_order df1 df2 = Inr out"
    and mg: "mergeable df1 df2"
    and c1: "cells_exact df1" and c2: "cells_exact df2"
  shows "\<exists>sj fz cl.
           pd_merge df1 df2 = Inr sj \<and>
           fuzzy_loop df1 df2 (duplicate_names set_order df1 df2) = Inr fz \<and>
           rows out = cl @ map (reindex_row (columns out)) fz \<and>
           length cl = length (rows (clean_join (duplicate_names set_order df1 df2) sj)) \<and>
           (\<forall>r \<in> set fz. \<exists>row1 \<in> set (rows df1). \<exists>row2 \<in> set (rows df2).
              player df1 row1 = player df2 row2 \<and>
              r = [player df1 row1, rank df1 row1, rank df2 row2] \<and>
              (\<forall>label \<in> set (columns out).
                 cell_at (columns out) (reindex_row (columns out) r) label =
                   Some (if label = ''name'' then player df1 row1
                         else if label = ''rank_df1'' then rank df1 row1
                         else if label = ''rank_df2'' then rank df2 row2
                         else None)))"
proof -
  let ?names = "duplicate_names set_order df1 df2"
  obtain sj fz where sj: "pd_merge df1 df2 = Inr sj"
    and fl: "fuzzy_loop df1 df2 ?names = Inr fz"
    and out: "out = final_result (clean_join ?names sj) fz"
    using ret by (auto simp: fuzzy_join_Inr_iff)
  obtain cl where cl: "rows out = cl @ map (reindex_row (columns out)) fz"
    "length cl = length (rows (clean_join ?names sj))"
    using rows_final_result[of "clean_join ?names sj" fz] out by blast
  have "\<exists>row1 \<in> set (rows df1). \<exists>row2 \<in> set (rows df2).
              player df1 row1 = player df2 row2 \<and>
              r = [player df1 row1, rank df1 row1, rank df2 row2] \<and>
              (\<forall>label \<in> set (columns out).
                 cell_at (columns out) (reindex_row (columns out) r) label =
                   Some (if label = ''name'' then player df1 row1
                         else if label = ''rank_df1'' then rank df1 row1
                         else if label = ''rank_df2'' then rank df2 row2
                         else None))" if rfz: "r \<in> set fz" for r
  proof -
    obtain row1 row2 where rw: "row1 \<in> set (rows df1)" "row2 \<in> set (rows df2)"
      "player df1 row1 = player df2 row2" "r = joined_row df1 row1 df2 row2"
      using fuzzy_loop_rows[OF fl rfz] by blast
    have "\<forall>label \<in> set (columns out).
                 cell_at (columns out) (reindex_row (columns out) r) label =
                   Some (if label = ''name'' then player df1 row1
                         else if label = ''rank_df1'' then rank df1 row1
                         else if label = ''rank_df2'' then rank df2 row2
                         else None)"
      using cell_at_reindex_row[of _ "columns out" df1 row1 df2 row2] rw(4) by blast
    moreover have "r = [player df1 row1, rank df1 row1, rank df2 row2]"
      using rw(4) by (simp add: joined_row_def)
    ultimately show ?thesis using rw(1,2,3) by blast
  qed
  then show ?thesis using sj fl cl by blast
qed

text \<open>The witness: the two tables with the repeated name \<open>Al\<close>.\<close>

theorem fuzzy_records_carry_name_and_ranks_witness:
  "mergeable table_A table_B \<and> cells_exact table_A \<and> cells_exact table_B \<and>
   (\<exists>out. fuzzy_join remdups table_A table_B = Inr out \<and>
     (\<exists>sj fz cl.
           pd_merge table_A table_B = Inr sj \<and>
           fuzzy_loop table_A table_B (duplicate_names remdups table_A table_B) = Inr fz \<and>
           rows out = cl @ map (reindex_row (columns out)) fz \<and>
           length cl = length (rows (clean_join (duplicate_names remdups table_A table_B) sj)) \<and>
           (\<forall>r \<in> set fz. \<exists>row1 \<in> set (rows table_A). \<exists>row2 \<in> set (rows table_B).
              player table_A row1 = player table_B row2 \<and>
              r = [player table_A row1, rank table_A row1, rank table_B row2] \<and>
              (\<forall>label \<in> set (columns out).
                 cell_at (columns out) (reindex_row (columns out) r) label =
                   Some (if label = ''name'' then player table_A row1
                         else if label = ''rank_df1'' then rank table_A row1
                         else if label = ''rank_df2'' then rank table_B row2
                         else None)))))"
  using fuzzy_records_carry_name_and_ranks[OF table_join table_facts(1,4,5)] table_join
    table_facts(1,4,5)
  by blast



subsection \<open>Names that are unique in both tables\<close>

lemma cell_at_prefix:
  assumes "length row = length cols" and "label \<in> set cols"
  shows "cell_at (cols @ cols') (map f row @ row') label = map_option f (cell_at cols row label)"
proof -
  have z: "zip (cols @ cols') (map f row @ row') = zip cols (map f row) @ zip cols' row'"
    using assms(1) by simp
  have "label \<in> fst ` set (zip cols row)"
    using assms by (simp add: set_zip image_iff) (metis in_set_conv_nth)
  then obtain v where v: "map_of (zip cols row) label = Some v"
    by (metis map_of_eq_None_iff not_None_eq)
  have "map_of (zip cols (map f row)) label = map_option f (map_of (zip cols row) label)"
    by (simp add: zip_map2 map_of_map)
  then show ?thesis using v by (simp add: cell_at_def z)
qed

lemma cell_at_prefix_id:
  assumes "length row = length cols" and "label \<in> set cols"
  shows "cell_at (cols @ cols') (row @ row') label = cell_at cols row label"
  using cell_at_prefix[OF assms, of cols' id row'] by (simp add: option.map_id)

lemma cell_at_Some:
  assumes "length row = length cols" and "label \<in> set cols"
  shows "\<exists>v. cell_at cols row label = Some v"
proof -
  have "label \<in> fst ` set (zip cols row)"
    using assms by (simp add: set_zip image_iff) (metis in_set_conv_nth)
  then show ?thesis
    unfolding cell_at_def by (metis map_of_eq_None_iff not_None_eq)
qed

lemma pd_merge_rows:
  assumes "pd_merge df1 df2 = Inr sj"
  shows "''Player'' \<in> set (columns df1)" and "''Player'' \<in> set (columns df2)"
    and "columns sj = merged_columns (columns df1) (columns df2)"
    and "rows sj = concat (map (\<lambda>row1.
                         map (\<lambda>row2. row1 @ drop_key (columns df2) row2)
                           (filter (\<lambda>row2. player df2 row2 = player df1 row1) (rows df2)))
                         (rows df1))"
  using assms by (auto simp: pd_merge_def split: if_splits)

lemma player_merged_row:
  assumes "pd_merge df1 df2 = Inr sj" and "length row1 = length (columns df1)"
  shows "player sj (row1 @ rest) = player df1 row1"
  using pd_merge_rows(1,3)[OF assms(1)] assms(2)
  by (simp add: player_def merged_columns_def cell_at_prefix_id)

lemma concat_map_if_list:
  "concat (map (\<lambda>x. if P x then f x else []) xs) = concat (map f (filter P xs))"
  by (induction xs) simp_all

lemma filter_concat_map:
  "filter P (concat (map f xs)) = concat (map (\<lambda>x. filter P (f x)) xs)"
  by (induction xs) simp_all

lemma standard_join_named:
  assumes sj: "pd_merge df1 df2 = Inr sj" and rect: "rectangular df1"
  shows "filter (\<lambda>row. player sj row = nm) (rows sj) =
     concat (map (\<lambda>row1. map (\<lambda>row2. row1 @ drop_key (columns df2) row2) (rows_named df2 nm))
              (rows_named df1 nm))"
proof -
  have inner: "filter (\<lambda>row. player sj row = nm)
        (map (\<lambda>row2. row1 @ drop_key (columns df2) row2)
           (filter (\<lambda>row2. player df2 row2 = player df1 row1) (rows df2))) =
      (if player df1 row1 = nm
       then map (\<lambda>row2. row1 @ drop_key (columns df2) row2) (rows_named df2 nm) else [])"
    if "row1 \<in> set (rows df1)" for row1
  proof -
    have len: "length row1 = length (columns df1)" using rect that by (simp add: rectangular_def)
    have p: "player sj (row1 @ rest) = player df1 row1" for rest
      by (rule player_merged_row[OF sj len])
    show ?thesis
      by (auto simp: filter_map comp_def p rows_named_def filter_empty_conv)
  qed
  have "filter (\<lambda>row. player sj row = nm) (rows sj) =
      concat (map (\<lambda>row1. if player df1 row1 = nm
         then map (\<lambda>row2. row1 @ drop_key (columns df2) row2) (rows_named df2 nm) else [])
        (rows df1))"
    unfolding pd_merge_rows(4)[OF sj] filter_concat_map
    using inner by (intro arg_cong[where f = concat] map_cong) simp_all
  then show ?thesis
    by (simp add: concat_map_if_list rows_named_def)
qed

lemma filter_clean_join:
  "nm \<notin> set names \<Longrightarrow>
   filter (\<lambda>row. player sj row = nm) (rows (clean_join names sj)) =
   filter (\<lambda>row. player sj row = nm) (rows sj)"
  by (auto simp: clean_join_def intro: filter_cong)

lemma final_result_unfold:
  "final_result clean fz =
     (let extra = (if fz = [] then [] else filter (\<lambda>label. label \<notin> set (columns clean)) fuzzy_columns)
      in \<lparr>columns = columns clean @ extra,
          rows = map (pad_row extra) (rows clean) @ map (reindex_row (columns clean @ extra)) fz\<rparr>)"
  by (simp add: final_result_def pd_concat_def Let_def pad_row_def)

lemma pd_merge_row_split:
  assumes "pd_merge df1 df2 = Inr sj" and "r \<in> set (rows sj)"
  shows "\<exists>row1 \<in> set (rows df1). \<exists>rest. r = row1 @ rest"
  using assms(2) unfolding pd_merge_rows(4)[OF assms(1)] by auto

lemma player_padded_row:
  assumes sj: "pd_merge df1 df2 = Inr sj" and rect: "rectangular df1" and r: "r \<in> set (rows sj)"
  shows "cell_at (columns sj @ extra) (pad_row extra r) ''Player'' = map_option Some (player sj r)"
proof -
  obtain row1 rest where rw: "row1 \<in> set (rows df1)" "r = row1 @ rest"
    using pd_merge_row_split[OF sj r] by blast
  have len: "length row1 = length (columns df1)" using rect rw(1) by (simp add: rectangular_def)
  have p: "''Player'' \<in> set (columns df1)" by (rule pd_merge_rows(1)[OF sj])
  have "cell_at (columns sj @ extra) (pad_row extra r) ''Player'' =
      cell_at (columns df1 @ (drop (length (columns df1)) (columns sj) @ extra))
        (map Some row1 @ (map Some rest @ map (\<lambda>label. None) extra)) ''Player''"
    by (simp add: pd_merge_rows(3)[OF sj] merged_columns_def pad_row_def rw(2))
  also have "\<dots> = map_option Some (cell_at (columns df1) row1 ''Player'')"
    by (rule cell_at_prefix[OF len p])
  also have "\<dots> = map_option Some (player sj r)"
    using player_merged_row[OF sj len, of rest] by (simp add: rw(2) player_def)
  finally show ?thesis .
qed

text \<open>The cells of a merged row under the labels of the second table.\<close>

lemma map_of_filter_key:
  "P c \<Longrightarrow> map_of (filter (\<lambda>(label, v). P label) xs) c = map_of xs c"
  by (induction xs) auto

lemma map_of_renamed:
  assumes "inj_on f (insert c (fst ` set xs))"
  shows "map_of (map (\<lambda>(label, v). (f label, v)) xs) (f c) = map_of xs c"
  using assms
proof (induction xs)
  case Nil
  show ?case by simp
next
  case (Cons x xs)
  obtain l v where x: "x = (l, v)" by (cases x)
  have inj: "inj_on f (insert c (fst ` set xs))"
    using Cons.prems by (auto simp: inj_on_def)
  have "(f c = f l) = (c = l)" using Cons.prems by (auto simp: inj_on_def x)
  then show ?case using Cons.IH[OF inj] by (auto simp: x)
qed

lemma cell_at_suffix:
  assumes "length row = length cols" and "label \<notin> set cols"
  shows "cell_at (cols @ cols') (row @ row') label = cell_at cols' row' label"
proof -
  have n: "map_of (zip cols row) label = None"
    using cell_at_missing[OF assms(2), of row] by (simp add: cell_at_def)
  have z: "zip (cols @ cols') (row @ row') = zip cols row @ zip cols' row'"
    using assms(1) by simp
  show ?thesis unfolding cell_at_def z by (simp add: map_add_def n)
qed

lemma kept_labels:
  assumes "length row = length cols"
  shows "map fst (filter (\<lambda>(label, v). label \<noteq> ''Player'') (zip cols row)) =
     filter (\<lambda>label. label \<noteq> ''Player'') cols"
proof -
  have "map fst (filter (\<lambda>(label, v). label \<noteq> ''Player'') (zip cols row)) =
      filter (\<lambda>label. label \<noteq> ''Player'') (map fst (zip cols row))"
    by (simp add: filter_map comp_def case_prod_unfold)
  then show ?thesis using assms by simp
qed

lemma length_drop_key:
  assumes "length row = length cols"
  shows "length (drop_key cols row) = length (filter (\<lambda>label. label \<noteq> ''Player'') cols)"
proof -
  have "length (drop_key cols row) =
      length (map fst (filter (\<lambda>(label, v). label \<noteq> ''Player'') (zip cols row)))"
    by (simp add: drop_key_def)
  then show ?thesis by (simp only: kept_labels[OF assms])
qed

lemma drop_key_zip:
  assumes "length row = length cols"
  shows "zip (filter (\<lambda>label. label \<noteq> ''Player'') cols) (drop_key cols row) =
     filter (\<lambda>(label, v). label \<noteq> ''Player'') (zip cols row)"
proof -
  have "zip (map fst (filter (\<lambda>(label, v). label \<noteq> ''Player'') (zip cols row)))
          (map snd (filter (\<lambda>(label, v). label \<noteq> ''Player'') (zip cols row))) =
        filter (\<lambda>(label, v). label \<noteq> ''Player'') (zip cols row)"
    by (rule zip_map_fst_snd)
  then show ?thesis by (simp only: kept_labels[OF assms] drop_key_def)
qed

lemma cell_at_merged_right:
  assumes len1: "length row1 = length cols1" and len2: "length row2 = length cols2"
    and dm: "distinct (merged_columns cols1 cols2)"
    and c: "c \<in> set cols2" "c \<noteq> ''Player''"
  shows "cell_at (merged_columns cols1 cols2 @ extra)
           (map Some (row1 @ drop_key cols2 row2) @ pad)
           (if c \<in> set cols1 then c @ ''_standings'' else c)
         = map_option Some (cell_at cols2 row2 c)"
proof -
  define ren where "ren = (\<lambda>label. if label \<in> set cols1 then label @ ''_standings'' else label)"
  define fc where "fc = filter (\<lambda>label. label \<noteq> ''Player'') cols2"
  define dk where "dk = drop_key cols2 row2"
  have mc: "merged_columns cols1 cols2 = cols1 @ map ren fc"
    by (simp add: merged_columns_def ren_def fc_def)
  have d: "distinct (map ren fc)" and disj: "set cols1 \<inter> set (map ren fc) = {}"
    using dm by (simp_all add: mc)
  have cfc: "c \<in> set fc" using c by (simp add: fc_def)
  then have rin: "ren c \<in> set (map ren fc)" by simp
  then have rout: "ren c \<notin> set cols1" using disj by blast
  have z: "zip fc dk = filter (\<lambda>(label, v). label \<noteq> ''Player'') (zip cols2 row2)"
    unfolding fc_def dk_def by (rule drop_key_zip[OF len2])
  have ldk: "length dk = length (map ren fc)"
    by (simp add: dk_def fc_def length_drop_key[OF len2])
  have inj: "inj_on ren (insert c (fst ` set (zip fc dk)))"
  proof -
    have "inj_on ren (set fc)" using d by (simp add: distinct_map)
    moreover have "insert c (fst ` set (zip fc dk)) \<subseteq> set fc"
      using cfc by (auto dest: set_zip_leftD)
    ultimately show ?thesis by (rule inj_on_subset)
  qed
  have "cell_at (merged_columns cols1 cols2 @ extra) (map Some (row1 @ dk) @ pad) (ren c) =
      cell_at (cols1 @ (map ren fc @ extra)) (map Some row1 @ (map Some dk @ pad)) (ren c)"
    by (simp add: mc)
  also have "\<dots> = cell_at (map ren fc @ extra) (map Some dk @ pad) (ren c)"
    by (rule cell_at_suffix) (simp_all add: len1 rout)
  also have "\<dots> = map_option Some (cell_at (map ren fc) dk (ren c))"
    by (rule cell_at_prefix[OF ldk rin])
  also have "cell_at (map ren fc) dk (ren c) = map_of (map (\<lambda>(label, v). (ren label, v)) (zip fc dk)) (ren c)"
    by (simp add: cell_at_def zip_map1)
  also have "\<dots> = map_of (zip fc dk) c" by (rule map_of_renamed[OF inj])
  also have "\<dots> = cell_at cols2 row2 c"
    using c(2) by (simp add: z cell_at_def map_of_filter_key)
  finally show ?thesis by (simp add: ren_def dk_def)
qed

text \<open>
  Claim C4. Let the two tables be \<open>mergeable\<close>, with one cell per label in every row
  and all their numbers up to \<open>2 ^ 52\<close> in magnitude; let the join return, and let
  the name \<open>nm\<close> occur exactly once in each table, in the rows \<open>row1\<close> and \<open>row2\<close>. Then
  exactly one record of the result has that name in the column of the players. Under
  every label of the first table it holds the cell that \<open>row1\<close> has under that label;
  under every label of the second table but the name (with the suffix \<^verbatim>\<open>_standings\<close>
  where the first table has the label too) it holds the cell that \<open>row2\<close> has under
  it. Its cells are those of \<open>row1\<close>, then those of \<open>row2\<close> but its name, then \<^verbatim>\<open>NaN\<close>
  under the labels that only the fuzzy records fill. It comes from the clean join: no
  fuzzy record has that name.
\<close>

theorem unique_name_one_record:
  assumes out: "fuzzy_join set_order df1 df2 = Inr out"
    and ord: "valid_set_order set_order (duplicated (player_column df1) @ duplicated (player_column df2))"
    and mg: "mergeable df1 df2"
    and rect: "rectangular df1" and rect2: "rectangular df2"
    and c1: "cells_exact df1" and c2: "cells_exact df2"
    and u1: "rows_named df1 nm = [row1]" and u2: "rows_named df2 nm = [row2]"
  shows "\<exists>r pad.
           filter (\<lambda>r. cell_at (columns out) r ''Player'' = Some nm) (rows out) = [r] \<and>
           r = map Some (row1 @ drop_key (columns df2) row2) @ pad \<and> set pad \<subseteq> {None} \<and>
           (\<forall>c \<in> set (columns df1). \<exists>v. cell_at (columns df1) row1 c = Some v \<and>
               cell_at (columns out) r c = Some (Some v)) \<and>
           (\<forall>c \<in> set (columns df2). c \<noteq> ''Player'' \<longrightarrow>
               (\<exists>v. cell_at (columns df2) row2 c = Some v \<and>
                  cell_at (columns out) r (if c \<in> set (columns df1) then c @ ''_standings'' else c)
                    = Some (Some v))) \<and>
           (\<exists>fz. fuzzy_loop df1 df2 (duplicate_names set_order df1 df2) = Inr fz \<and>
              filter (\<lambda>r. fuzzy_name r = nm) fz = [])"
proof -
  let ?names = "duplicate_names set_order df1 df2"
  obtain sj fz where sj: "pd_merge df1 df2 = Inr sj"
    and fl: "fuzzy_loop df1 df2 ?names = Inr fz"
    and o: "out = final_result (clean_join ?names sj) fz"
    using out by (auto simp: fuzzy_join_Inr_iff)
  let ?clean = "clean_join ?names sj"
  define extra where "extra = (if fz = [] then [] else filter (\<lambda>label. label \<notin> set (columns sj)) fuzzy_columns)"
  define pad :: "cell option list" where "pad = map (\<lambda>label. None) extra"
  define r where "r = map Some (row1 @ drop_key (columns df2) row2) @ pad"
  have cc: "columns ?clean = columns sj" by (simp add: clean_join_def)
  have fr: "out = \<lparr>columns = columns sj @ extra,
      rows = map (pad_row extra) (rows ?clean) @ map (reindex_row (columns sj @ extra)) fz\<rparr>"
    unfolding o final_result_unfold[of ?clean fz] Let_def cc extra_def ..
  have cols: "columns out = columns sj @ extra" by (simp add: fr)
  have cols': "columns out = merged_columns (columns df1) (columns df2) @ extra"
    by (simp only: cols pd_merge_rows(3)[OF sj])
  have rws: "rows out = map (pad_row extra) (rows ?clean) @ map (reindex_row (columns out)) fz"
    by (simp add: fr)
  \<comment> \<open>the name is not ambiguous, and it is a cell\<close>
  have "\<not> ambiguous df1 df2 nm"
    by (simp add: ambiguous_def count_player_column u1 u2)
  then have notin: "nm \<notin> set ?names" using duplicate_names_valid(2)[OF ord] by simp
  have r1: "row1 \<in> set (rows df1)" "player df1 row1 = nm"
    using u1 by (auto simp: rows_named_def filter_eq_Cons_iff)
  have r2: "row2 \<in> set (rows df2)"
    using u2 by (auto simp: rows_named_def filter_eq_Cons_iff)
  have len1: "length row1 = length (columns df1)" using rect r1(1) by (simp add: rectangular_def)
  have len2: "length row2 = length (columns df2)" using rect2 r2 by (simp add: rectangular_def)
  obtain c where c: "nm = Some c"
    using cell_at_Some[OF len1 pd_merge_rows(1)[OF sj]] r1(2) by (auto simp: player_def)
  \<comment> \<open>the rows of the clean join with that name\<close>
  have cl: "filter (\<lambda>row. player sj row = nm) (rows ?clean) = [row1 @ drop_key (columns df2) row2]"
    by (simp add: filter_clean_join[OF notin] standard_join_named[OF sj rect] u1 u2)
  have sub: "set (rows ?clean) \<subseteq> set (rows sj)" by (auto simp: clean_join_def)
  have "filter (\<lambda>r. cell_at (columns out) r ''Player'' = Some nm) (map (pad_row extra) (rows ?clean))
      = map (pad_row extra) (filter (\<lambda>row. player sj row = nm) (rows ?clean))"
  proof -
    have "(cell_at (columns out) (pad_row extra r) ''Player'' = Some nm) = (player sj r = nm)"
      if "r \<in> set (rows ?clean)" for r
    proof -
      have "r \<in> set (rows sj)" using that sub by blast
      then have "cell_at (columns out) (pad_row extra r) ''Player'' = map_option Some (player sj r)"
        by (simp only: cols player_padded_row[OF sj rect])
      then show ?thesis using c by (cases "player sj r") auto
    qed
    then show ?thesis by (simp add: filter_map comp_def cong: filter_cong)
  qed
  then have part1: "filter (\<lambda>r. cell_at (columns out) r ''Player'' = Some nm)
        (map (pad_row extra) (rows ?clean)) = [pad_row extra (row1 @ drop_key (columns df2) row2)]"
    by (simp only: cl list.map)
  \<comment> \<open>no fuzzy record has that name in the column of the players\<close>
  have pin: "''Player'' \<in> set (columns out)"
    using pd_merge_rows(1,3)[OF sj] by (simp add: cols merged_columns_def)
  have "cell_at (columns out) (reindex_row (columns out) r) ''Player'' \<noteq> Some nm"
    if rfz: "r \<in> set fz" for r
  proof -
    obtain a b where "r = joined_row df1 a df2 b" using fuzzy_loop_rows[OF fl rfz] by blast
    then have "cell_at (columns out) (reindex_row (columns out) r) ''Player'' = Some None"
      using cell_at_reindex_row[OF pin] by simp
    then show ?thesis using c by simp
  qed
  then have part2: "filter (\<lambda>r. cell_at (columns out) r ''Player'' = Some nm)
        (map (reindex_row (columns out)) fz) = []"
    by (auto simp: filter_empty_conv)
  have one: "filter (\<lambda>r. cell_at (columns out) r ''Player'' = Some nm) (rows out) = [r]"
    by (simp only: rws filter_append part1 part2 append_Nil2 pad_row_def r_def pad_def)
  have padN: "set pad \<subseteq> {None}" by (auto simp: pad_def)
  \<comment> \<open>the cells of the record, label by label\<close>
  have left: "\<exists>v. cell_at (columns df1) row1 l = Some v \<and> cell_at (columns out) r l = Some (Some v)"
    if l: "l \<in> set (columns df1)" for l
  proof -
    obtain v where v: "cell_at (columns df1) row1 l = Some v"
      using cell_at_Some[OF len1 l] by blast
    have "cell_at (columns out) r l =
        cell_at (columns df1 @ (drop (length (columns df1)) (columns out)))
          (map Some row1 @ (map Some (drop_key (columns df2) row2) @ pad)) l"
      by (simp add: cols' merged_columns_def r_def)
    also have "\<dots> = map_option Some (cell_at (columns df1) row1 l)"
      by (rule cell_at_prefix[OF len1 l])
    finally show ?thesis using v by simp
  qed
  have dm: "distinct (merged_columns (columns df1) (columns df2))"
    using mg by (simp add: mergeable_def)
  have right: "\<exists>v. cell_at (columns df2) row2 l = Some v \<and>
      cell_at (columns out) r (if l \<in> set (columns df1) then l @ ''_standings'' else l) = Some (Some v)"
    if l: "l \<in> set (columns df2)" "l \<noteq> ''Player''" for l
  proof -
    obtain v where v: "cell_at (columns df2) row2 l = Some v"
      using cell_at_Some[OF len2 l(1)] by blast
    have "cell_at (columns out) r (if l \<in> set (columns df1) then l @ ''_standings'' else l)
        = map_option Some (cell_at (columns df2) row2 l)"
      unfolding cols' r_def by (rule cell_at_merged_right[OF len1 len2 dm l])
    then show ?thesis using v by simp
  qed
  have nofz: "filter (\<lambda>r. fuzzy_name r = nm) fz = []"
  proof -
    have "fz = concat (map (joined_for df1 df2) ?names)"
      using fl by (simp add: fuzzy_loop_Inr_iff)
    then show ?thesis
      using notin by (simp add: filter_concat_joined_for[OF duplicate_names_valid(1)[OF ord]])
  qed
  have A: "\<forall>c \<in> set (columns df1). \<exists>v. cell_at (columns df1) row1 c = Some v \<and>
               cell_at (columns out) r c = Some (Some v)"
    using left by blast
  have B: "\<forall>c \<in> set (columns df2). c \<noteq> ''Player'' \<longrightarrow>
               (\<exists>v. cell_at (columns df2) row2 c = Some v \<and>
                  cell_at (columns out) r (if c \<in> set (columns df1) then c @ ''_standings'' else c)
                    = Some (Some v))"
    using right by blast
  have C: "\<exists>fz. fuzzy_loop df1 df2 (duplicate_names set_order df1 df2) = Inr fz \<and>
              filter (\<lambda>r. fuzzy_name r = nm) fz = []"
    using fl nofz by blast
  show ?thesis
    by (rule exI[of _ r], rule exI[of _ pad]) (intro conjI one r_def padN A B C)
qed

text \<open>The witness: the name \<open>Bo\<close>, once in each of the two tables above.\<close>

theorem unique_name_one_record_witness:
  "valid_set_order remdups (duplicated (player_column table_A) @ duplicated (player_column table_B)) \<and>
   mergeable table_A table_B \<and> rectangular table_A \<and> rectangular table_B \<and>
   cells_exact table_A \<and> cells_exact table_B \<and>
   rows_named table_A (Some (Str ''Bo'')) = [[Str ''Bo'', Num 2, Num 3]] \<and>
   rows_named table_B (Some (Str ''Bo'')) = [[Num 3, Str ''Bo'', Str ''z'']] \<and>
   (\<exists>out. fuzzy_join remdups table_A table_B = Inr out \<and>
      (\<exists>r pad.
         filter (\<lambda>r. cell_at (columns out) r ''Player'' = Some (Some (Str ''Bo''))) (rows out) = [r] \<and>
         r = map Some ([Str ''Bo'', Num 2, Num 3] @
               drop_key (columns table_B) [Num 3, Str ''Bo'', Str ''z'']) @ pad \<and>
         set pad \<subseteq> {None} \<and>
         (\<forall>c \<in> set (columns table_A).
            \<exists>v. cell_at (columns table_A) [Str ''Bo'', Num 2, Num 3] c = Some v \<and>
              cell_at (columns out) r c = Some (Some v)) \<and>
         (\<forall>c \<in> set (columns table_B). c \<noteq> ''Player'' \<longrightarrow>
            (\<exists>v. cell_at (columns table_B) [Num 3, Str ''Bo'', Str ''z''] c = Some v \<and>
               cell_at (columns out) r (if c \<in> set (columns table_A) then c @ ''_standings'' else c)
                 = Some (Some v))) \<and>
         (\<exists>fz. fuzzy_loop table_A table_B (duplicate_names remdups table_A table_B) = Inr fz \<and>
            filter (\<lambda>r. fuzzy_name r = Some (Str ''Bo'')) fz = [])))"
proof -
  have u1: "rows_named table_A (Some (Str ''Bo'')) = [[Str ''Bo'', Num 2, Num 3]]"
    and u2: "rows_named table_B (Some (Str ''Bo'')) = [[Num 3, Str ''Bo'', Str ''z'']]"
    by (simp_all add: rows_named_def player_def cell_at_def table_A_def table_B_def)
  obtain out where o: "fuzzy_join remdups table_A table_B = Inr out"
    using table_join by simp
  note one_record = unique_name_one_record[OF o table_order table_facts(1,6,7,4,5) u1 u2]
  have E: "\<exists>out. fuzzy_join remdups table_A table_B = Inr out \<and>
      (\<exists>r pad.
         filter (\<lambda>r. cell_at (columns out) r ''Player'' = Some (Some (Str ''Bo''))) (rows out) = [r] \<and>
         r = map Some ([Str ''Bo'', Num 2, Num 3] @
               drop_key (columns table_B) [Num 3, Str ''Bo'', Str ''z'']) @ pad \<and>
         set pad \<subseteq> {None} \<and>
         (\<forall>c \<in> set (columns table_A).
            \<exists>v. cell_at (columns table_A) [Str ''Bo'', Num 2, Num 3] c = Some v \<and>
              cell_at (columns out) r c = Some (Some v)) \<and>
         (\<forall>c \<in> set (columns table_B). c \<noteq> ''Player'' \<longrightarrow>
            (\<exists>v. cell_at (columns table_B) [Num 3, Str ''Bo'', Str ''z''] c = Some v \<and>
               cell_at (columns out) r (if c \<in> set (columns table_A) then c @ ''_standings'' else c)
                 = Some (Some v))) \<and>
         (\<exists>fz. fuzzy_loop table_A table_B (duplicate_names remdups table_A table_B) = Inr fz \<and>
            filter (\<lambda>r. fuzzy_name r = Some (Str ''Bo'')) fz = []))"
    by (rule exI[of _ out], rule conjI[OF o one_record])
  show ?thesis
    by (intro conjI table_order table_facts(1,6,7,4,5) u1 u2 E)
qed


subsection \<open>The order in which the duplicate names are listed\<close>

lemma mset_concat_map_cong:
  assumes "mset xs = mset ys"
  shows "mset (concat (map f xs)) = mset (concat (map f ys))"
proof -
  have "mset (concat (map f zs)) = sum_mset (image_mset (\<lambda>z. mset (f z)) (mset zs))" for zs
    by (induction zs) simp_all
  then show ?thesis using assms by simp
qed

lemma rank_distance_error:
  "rank_distance r1 r2 = Inl e \<Longrightarrow>
     e = (if r1 = None \<or> r2 = None then AttributeError else TypeError)"
  by (cases "(r1, r2)" rule: rank_distance.cases) auto

lemma distance_row_error:
  assumes "distance_row r1 ranks2 = Inl e" and "\<forall>r2 \<in> set ranks2. (r2 = None) = miss2"
  shows "e = (if r1 = None \<or> miss2 then AttributeError else TypeError)"
  using assms
proof (induction ranks2)
  case Nil
  then show ?case by simp
next
  case (Cons r2 ranks2)
  show ?case
  proof (cases "rank_distance r1 r2")
    case (Inl e')
    then have "e = e'" using Cons.prems(1) by simp
    then show ?thesis using rank_distance_error[OF Inl] Cons.prems(2) by auto
  next
    case (Inr d)
    then have "distance_row r1 ranks2 = Inl e"
      using Cons.prems(1) by (auto split: sum.splits)
    then show ?thesis using Cons.IH Cons.prems(2) by simp
  qed
qed

lemma distance_matrix_error:
  assumes "distance_matrix ranks1 ranks2 = Inl e"
    and "\<forall>r1 \<in> set ranks1. (r1 = None) = miss1" and "\<forall>r2 \<in> set ranks2. (r2 = None) = miss2"
  shows "e = (if miss1 \<or> miss2 then AttributeError else TypeError)"
  using assms
proof (induction ranks1)
  case Nil
  then show ?case by simp
next
  case (Cons r1 ranks1)
  show ?case
  proof (cases "distance_row r1 ranks2")
    case (Inl e')
    then have "e = e'" using Cons.prems(1) by simp
    then show ?thesis using distance_row_error[OF Inl Cons.prems(3)] Cons.prems(2) by auto
  next
    case (Inr ds)
    then have "distance_matrix ranks1 ranks2 = Inl e"
      using Cons.prems(1) by (auto split: sum.splits)
    then show ?thesis using Cons.IH Cons.prems(2,3) by simp
  qed
qed

lemma rank_None_iff:
  assumes "rectangular df" and "row \<in> set (rows df)"
  shows "(rank df row = None) = (''Rank'' \<notin> set (columns df))"
proof (cases "''Rank'' \<in> set (columns df)")
  case True
  have "length row = length (columns df)" using assms by (simp add: rectangular_def)
  then show ?thesis using cell_at_Some[OF _ True, of row] True by (auto simp: rank_def)
next
  case False
  then show ?thesis by (simp add: rank_def cell_at_missing)
qed

lemma match_name_error:
  assumes rect1: "rectangular df1" and rect2: "rectangular df2"
    and err: "match_name df1 df2 nm = Inl e"
  shows "e = (if ''Rank'' \<notin> set (columns df1) \<or> ''Rank'' \<notin> set (columns df2)
              then AttributeError else TypeError)"
proof -
  let ?G1 = "rows_named df1 nm" and ?G2 = "rows_named df2 nm"
  have ne: "?G1 \<noteq> []" "?G2 \<noteq> []"
    using err match_name_empty[of df1 nm df2] by auto
  have d: "distance_matrix (map (rank df1) ?G1) (map (rank df2) ?G2) = Inl e"
    using err by (auto simp: match_name_nonempty[OF ne] split: sum.splits)
  have m1: "\<forall>r1 \<in> set (map (rank df1) ?G1). (r1 = None) = (''Rank'' \<notin> set (columns df1))"
    using rank_None_iff[OF rect1] by (auto simp: rows_named_def)
  have m2: "\<forall>r2 \<in> set (map (rank df2) ?G2). (r2 = None) = (''Rank'' \<notin> set (columns df2))"
    using rank_None_iff[OF rect2] by (auto simp: rows_named_def)
  show ?thesis by (rule distance_matrix_error[OF d m1 m2])
qed

lemma fuzzy_loop_error:
  assumes rect1: "rectangular df1" and rect2: "rectangular df2"
    and err: "fuzzy_loop df1 df2 names = Inl e"
  shows "e = (if ''Rank'' \<notin> set (columns df1) \<or> ''Rank'' \<notin> set (columns df2)
              then AttributeError else TypeError)"
  using err
proof (induction names)
  case Nil
  then show ?case by simp
next
  case (Cons nm names)
  show ?case
  proof (cases "match_name df1 df2 nm")
    case (Inl e')
    then have "e = e'" using Cons.prems by simp
    then show ?thesis using match_name_error[OF rect1 rect2 Inl] by simp
  next
    case (Inr joined)
    then have "fuzzy_loop df1 df2 names = Inl e"
      using Cons.prems by (auto split: sum.splits)
    then show ?thesis by (rule Cons.IH)
  qed
qed

lemma clean_join_set_cong:
  "set names1 = set names2 \<Longrightarrow> clean_join names1 sj = clean_join names2 sj"
  by (simp add: clean_join_def)

lemma final_result_mset:
  assumes "mset fz1 = mset fz2"
  shows "columns (final_result clean fz1) = columns (final_result clean fz2) \<and>
         mset (rows (final_result clean fz1)) = mset (rows (final_result clean fz2))"
proof -
  have e: "(fz1 = []) = (fz2 = [])" using assms by (metis mset_zero_iff)
  have "image_mset f (mset fz1) = image_mset f (mset fz2)" for f :: "cell option list \<Rightarrow> cell option list"
    using assms by simp
  then show ?thesis
    by (simp add: final_result_unfold Let_def e)
qed

text \<open>
  Claim C9. The only thing a run does not fix is the order in which the set of duplicate
  names is listed. For tables with one cell per label in every row, any two such orders
  give the same outcome: the same error, or frames with the same labels and the same
  rows, each as often as in the other; only the sequence of the fuzzy records can
  differ. Within a name nothing is left open: the matched pairs are computed by
  \<open>match_loop\<close>, a function of the two groups of rows, whose choice among equal distances
  is the scan of \<open>argmin\<close>.
\<close>

theorem join_independent_of_set_order:
  assumes rect1: "rectangular df1" and rect2: "rectangular df2"
    and o1: "valid_set_order order1 (duplicated (player_column df1) @ duplicated (player_column df2))"
    and o2: "valid_set_order order2 (duplicated (player_column df1) @ duplicated (player_column df2))"
  shows "same_records (fuzzy_join order1 df1 df2) (fuzzy_join order2 df1 df2)"
proof (cases "pd_merge df1 df2")
  case (Inl e)
  then show ?thesis by (simp add: fuzzy_join_def same_records_def)
next
  case (Inr sj)
  let ?n1 = "duplicate_names order1 df1 df2" and ?n2 = "duplicate_names order2 df1 df2"
  have s: "set ?n1 = set ?n2"
    using duplicate_names_valid(2)[OF o1] duplicate_names_valid(2)[OF o2] by simp
  then have ms: "mset ?n1 = mset ?n2"
    using duplicate_names_valid(1)[OF o1] duplicate_names_valid(1)[OF o2]
    by (simp add: set_eq_iff_mset_eq_distinct)
  have cl: "clean_join ?n1 sj = clean_join ?n2 sj" by (rule clean_join_set_cong[OF s])
  show ?thesis
  proof (cases "\<forall>nm \<in> set ?n1. \<exists>joined. match_name df1 df2 nm = Inr joined")
    case True
    then have f1: "fuzzy_loop df1 df2 ?n1 = Inr (concat (map (joined_for df1 df2) ?n1))"
      by (simp add: fuzzy_loop_Inr_iff)
    have f2: "fuzzy_loop df1 df2 ?n2 = Inr (concat (map (joined_for df1 df2) ?n2))"
      using True s by (simp add: fuzzy_loop_Inr_iff)
    have "mset (concat (map (joined_for df1 df2) ?n1)) = mset (concat (map (joined_for df1 df2) ?n2))"
      by (rule mset_concat_map_cong[OF ms])
    note fr = final_result_mset[OF this, of "clean_join ?n2 sj"]
    have j1: "fuzzy_join order1 df1 df2 =
        Inr (final_result (clean_join ?n2 sj) (concat (map (joined_for df1 df2) ?n1)))"
      using Inr f1 cl by (simp add: fuzzy_join_Inr_iff)
    have j2: "fuzzy_join order2 df1 df2 =
        Inr (final_result (clean_join ?n2 sj) (concat (map (joined_for df1 df2) ?n2)))"
      using Inr f2 by (simp add: fuzzy_join_Inr_iff)
    show ?thesis
      using fr by (simp add: j1 j2 same_records_def)
  next
    case False
    then obtain e1 where e1: "fuzzy_loop df1 df2 ?n1 = Inl e1"
      using fuzzy_loop_Inr_iff[of df1 df2 ?n1] by (cases "fuzzy_loop df1 df2 ?n1") auto
    from False s obtain e2 where e2: "fuzzy_loop df1 df2 ?n2 = Inl e2"
      using fuzzy_loop_Inr_iff[of df1 df2 ?n2] by (cases "fuzzy_loop df1 df2 ?n2") auto
    have "e1 = e2"
      using fuzzy_loop_error[OF rect1 rect2 e1] fuzzy_loop_error[OF rect1 rect2 e2] by simp
    moreover have "fuzzy_join order1 df1 df2 = Inl e1" "fuzzy_join order2 df1 df2 = Inl e2"
      using Inr e1 e2 by (simp_all add: fuzzy_join_def Let_def)
    ultimately show ?thesis
      by (simp add: same_records_def)
  qed
qed

text \<open>The witness: the two tables with the repeated names \<open>Al\<close> and \<open>Bo\<close>, and two orders
  of the set of their names.\<close>

lemma table_CD_first_order:
  "fuzzy_join remdups table_C table_D =
     Inr \<lparr>columns = [''Player'', ''Rank'', ''Rank_standings'', ''name'', ''rank_df1'', ''rank_df2''],
          rows = [[None, None, None, Some (Str ''Al''), Some (Num 1), Some (Num 2)],
                  [None, None, None, Some (Str ''Bo''), Some (Num 2), Some (Num 1)]]\<rparr>"
  by code_simp

lemma table_CD_second_order:
  "fuzzy_join reversed_order table_C table_D =
     Inr \<lparr>columns = [''Player'', ''Rank'', ''Rank_standings'', ''name'', ''rank_df1'', ''rank_df2''],
          rows = [[None, None, None, Some (Str ''Bo''), Some (Num 2), Some (Num 1)],
                  [None, None, None, Some (Str ''Al''), Some (Num 1), Some (Num 2)]]\<rparr>"
  by code_simp

text \<open>The sequence of the records does depend on the order of the set.\<close>

lemma set_order_changes_sequence:
  "fuzzy_join remdups table_C table_D \<noteq> fuzzy_join reversed_order table_C table_D"
  by (simp add: table_CD_first_order table_CD_second_order)

theorem join_independent_of_set_order_witness:
  "rectangular table_C \<and> rectangular table_D \<and>
   valid_set_order remdups (duplicated (player_column table_C) @ duplicated (player_column table_D)) \<and>
   valid_set_order reversed_order
     (duplicated (player_column table_C) @ duplicated (player_column table_D)) \<and>
   same_records (fuzzy_join remdups table_C table_D) (fuzzy_join reversed_order table_C table_D)"
proof -
  have r1: "rectangular table_C" and r2: "rectangular table_D"
    by (simp_all add: rectangular_def table_C_def table_D_def)
  have o1: "valid_set_order remdups
      (duplicated (player_column table_C) @ duplicated (player_column table_D))"
    and o2: "valid_set_order reversed_order
      (duplicated (player_column table_C) @ duplicated (player_column table_D))"
    by (simp_all add: valid_set_order_def reversed_order_def)
  show ?thesis
    using r1 r2 o1 o2 join_independent_of_set_order[OF r1 r2 o1 o2] by simp
qed


end
